theory Spec2Isabelle
  imports Main "HOL-Library.Word"
begin

section \<open>Data model of txlookup.go\<close>

text \<open>
  A \<open>btcwire.ShaHash\<close> is a 32-byte array, used only as a map key and compared for
  equality. An outpoint index is a \<open>uint32\<close>, a block height an \<open>int64\<close>.
\<close>

type_synonym ShaHash = "256 word"

record OutPoint =
  Hash :: ShaHash
  Index :: "32 word"

record TxIn =
  PreviousOutpoint :: OutPoint

record TxOut =
  Value :: "64 word"

text \<open>
  \<open>btcwire.MsgTx\<close>. The package reads the inputs, the number of outputs and the
  transaction's hash. The hash is the double SHA-256 of the serialised transaction, computed
  in btcwire; the model carries it with the transaction as the field \<open>TxSha\<close>.
\<close>

record MsgTx =
  TxSha :: ShaHash
  TxIn :: "TxIn list"
  TxOut :: "TxOut list"

text \<open>
  \<open>btcutil.Block\<close>: \<open>block.MsgBlock().Transactions\<close> and \<open>block.Height()\<close>.
\<close>

record Block =
  Transactions :: "MsgTx list"
  BlockHeight :: "64 word"

datatype error =
    TxShaMissing
  | OutOfRangeError
  | StorageError string
  | SideChainCacheMiss ShaHash

text \<open>
  A Go run-time panic unwinds through every caller in this file (none recovers), so it is
  kept apart from the \<open>error\<close> values, which callers may ignore.
\<close>

datatype panic = IndexOutOfRange | SliceBoundsOutOfRange | NilDereference

text \<open>
  \<open>block.TxSha(i)\<close> fails only when the index is out of range.
\<close>

definition blockTxSha :: "Block \<Rightarrow> nat \<Rightarrow> error + ShaHash" where
  "blockTxSha block txNum =
     (if txNum < length (Transactions block)
      then Inr (TxSha (Transactions block ! txNum))
      else Inl OutOfRangeError)"

subsection \<open>Slices of bool and the arrays behind them\<close>

text \<open>
  A \<open>[]bool\<close> is a reference to a backing array: two slices may denote the same array,
  and line 135 copies one so that they do not. The arrays live in a store, addressed by
  their position; \<open>None\<close> is the nil slice. No slice in this file is ever re-sliced, so a
  slice is its whole array.
\<close>

type_synonym slice = "nat option"
type_synonym heap = "bool list list"

text \<open>\<open>make([]bool, n)\<close>: a new array of \<open>n\<close> times \<open>false\<close>.\<close>

definition makeBools :: "nat \<Rightarrow> heap \<Rightarrow> nat \<times> heap" where
  "makeBools n hp = (length hp, hp @ [replicate n False])"

text \<open>The elements of a slice; the nil slice has none.\<close>

definition elems :: "heap \<Rightarrow> slice \<Rightarrow> bool list" where
  "elems hp s = (case s of None \<Rightarrow> [] | Some a \<Rightarrow> if a < length hp then hp ! a else [])"

text \<open>
  \<open>copy(dst, src)\<close> overwrites the first \<open>min (len dst) (len src)\<close> elements of
  \<open>dst\<close>.
\<close>

definition copyBools :: "slice \<Rightarrow> slice \<Rightarrow> heap \<Rightarrow> heap" where
  "copyBools dst src hp =
     (case dst of
        None \<Rightarrow> hp
      | Some a \<Rightarrow>
          (let n = min (length (elems hp dst)) (length (elems hp src))
           in if a < length hp
              then hp[a := take n (elems hp src) @ drop n (hp ! a)]
              else hp))"

text \<open>
  \<open>s[i] = v\<close>: the index is checked against the length, which is 0 for the nil slice.
\<close>

definition setIndex :: "slice \<Rightarrow> nat \<Rightarrow> bool \<Rightarrow> heap \<Rightarrow> panic + heap" where
  "setIndex s i v hp =
     (case s of
        None \<Rightarrow> Inl IndexOutOfRange
      | Some a \<Rightarrow>
          if a < length hp \<and> i < length (hp ! a)
          then Inr (hp[a := (hp ! a)[i := v]])
          else Inl IndexOutOfRange)"

subsection \<open>txData and the transaction store\<close>

text \<open>
  \<open>txData\<close> (lines 16 to 22). \<open>tx\<close> is a pointer to an immutable transaction
  (\<open>None\<close> is nil), \<open>err\<close> an error value (\<open>None\<close> is nil).

  The store is a \<open>map[btcwire.ShaHash]*txData\<close>. Every value this package puts into
  such a map is a \<open>txData\<close> allocated for that one key (lines 109 and 218), so the map is
  modelled as holding the records themselves.
\<close>

record txData =
  tx :: "MsgTx option"
  hash :: ShaHash
  blockHeight :: "64 word"
  spent :: slice
  err :: "error option"

type_synonym txStore = "ShaHash \<rightharpoonup> txData"

section \<open>The view mutators\<close>

text \<open>
  Lines 38 to 43: if the transaction is one of the requested ones, record it, the block's
  height and a new bitmap with one \<open>false\<close> for each output.
\<close>

definition updateRequested :: "txStore \<Rightarrow> heap \<Rightarrow> ShaHash \<Rightarrow> MsgTx \<Rightarrow> 64 word \<Rightarrow> txStore \<times> heap" where
  "updateRequested txStore hp txHash t h =
     (case txStore txHash of
        None \<Rightarrow> (txStore, hp)
      | Some txD \<Rightarrow>
          (let (a, hp') = makeBools (length (TxOut t)) hp
           in (txStore(txHash \<mapsto> txD\<lparr>tx := Some t, blockHeight := h, spent := Some a, err := None\<rparr>),
               hp')))"

text \<open>
  Lines 46 to 52 (with \<open>v = True\<close>) and lines 75 to 81 (with \<open>v = False\<close>): for each
  input whose origin transaction is in the store, assign \<open>v\<close> to the origin's bitmap at
  the input's output index. The assignment has no bounds check and panics out of range.
\<close>

fun setOrigins :: "bool \<Rightarrow> txStore \<Rightarrow> heap \<Rightarrow> TxIn list \<Rightarrow> panic + heap" where
  "setOrigins v txStore hp [] = Inr hp"
| "setOrigins v txStore hp (txIn # ins) =
     (let originHash = Hash (PreviousOutpoint txIn);
          originIndex = unat (Index (PreviousOutpoint txIn))
      in case txStore originHash of
           None \<Rightarrow> setOrigins v txStore hp ins
         | Some originTx \<Rightarrow>
             (case setIndex (spent originTx) originIndex v hp of
                Inl p \<Rightarrow> Inl p
              | Inr hp' \<Rightarrow> setOrigins v txStore hp' ins))"

text \<open>
  The loop of \<open>connectTransactions\<close> (lines 30 to 53) over the transactions with their
  indexes. The result is the returned error together with the store and the arrays as the
  call leaves them: an early return at line 33 leaves the updates made so far.
\<close>

fun connectLoop ::
  "Block \<Rightarrow> txStore \<Rightarrow> heap \<Rightarrow> (nat \<times> MsgTx) list \<Rightarrow> panic + (error option \<times> txStore \<times> heap)" where
  "connectLoop block txStore hp [] = Inr (None, txStore, hp)"
| "connectLoop block txStore hp ((i, t) # rest) =
     (case blockTxSha block i of
        Inl e \<Rightarrow> Inr (Some e, txStore, hp)
      | Inr txHash \<Rightarrow>
          (let (txStore', hp') = updateRequested txStore hp txHash t (BlockHeight block)
           in case setOrigins True txStore' hp' (TxIn t) of
                Inl p \<Rightarrow> Inl p
              | Inr hp'' \<Rightarrow> connectLoop block txStore' hp'' rest))"

definition connectTransactions ::
  "txStore \<Rightarrow> heap \<Rightarrow> Block \<Rightarrow> panic + (error option \<times> txStore \<times> heap)" where
  "connectTransactions txStore hp block =
     connectLoop block txStore hp (enumerate 0 (Transactions block))"

text \<open>
  The loop of \<open>disconnectTransactions\<close> (lines 64 to 82): the transaction's entry is
  deleted, then the outputs its inputs refer to are unspent.
\<close>

fun disconnectLoop ::
  "Block \<Rightarrow> txStore \<Rightarrow> heap \<Rightarrow> (nat \<times> MsgTx) list \<Rightarrow> panic + (error option \<times> txStore \<times> heap)" where
  "disconnectLoop block txStore hp [] = Inr (None, txStore, hp)"
| "disconnectLoop block txStore hp ((i, t) # rest) =
     (case blockTxSha block i of
        Inl e \<Rightarrow> Inr (Some e, txStore, hp)
      | Inr txHash \<Rightarrow>
          (let txStore' = txStore(txHash := None)
           in case setOrigins False txStore' hp (TxIn t) of
                Inl p \<Rightarrow> Inl p
              | Inr hp' \<Rightarrow> disconnectLoop block txStore' hp' rest))"

definition disconnectTransactions ::
  "txStore \<Rightarrow> heap \<Rightarrow> Block \<Rightarrow> panic + (error option \<times> txStore \<times> heap)" where
  "disconnectTransactions txStore hp block =
     disconnectLoop block txStore hp (enumerate 0 (Transactions block))"

section \<open>The chain and its collaborators\<close>

text \<open>
  \<open>blockNode\<close>: the node's block hash and height. The parent link is read only through
  \<open>getPrevNodeFromNode\<close>.
\<close>

record blockNode =
  nodeHash :: ShaHash
  height :: "64 word"

text \<open>\<open>btcdb.TxListReply\<close>, one element of the answer of \<open>FetchTxByShaList\<close>.\<close>

record TxListReply =
  Sha :: ShaHash
  Tx :: "MsgTx option"
  Height :: "64 word"
  TxSpent :: slice
  Err :: "error option"

text \<open>
  \<open>BlockChain\<close>, as far as this file reads it: the fields \<open>bestChain\<close> and
  \<open>blockCache\<close>, the methods \<open>getPrevNodeFromNode\<close> and \<open>getReorganizeNodes\<close>
  (defined in chain.go) and the two database methods \<open>db.FetchTxByShaList\<close> and
  \<open>db.FetchBlockBySha\<close> (package btcdb). The four are parameters of the model. Nothing in
  this file writes to the chain, so within one call each is a function of its argument.
  \<open>getReorganizeNodes\<close> returns two \<open>container/list\<close> lists of block nodes.
\<close>

record BlockChain =
  bestChain :: "blockNode option"
  blockCache :: "ShaHash \<rightharpoonup> Block"
  getPrevNodeFromNode :: "blockNode \<Rightarrow> error + blockNode option"
  getReorganizeNodes :: "blockNode option \<Rightarrow> blockNode list \<times> blockNode list"
  FetchTxByShaList :: "ShaHash list \<Rightarrow> TxListReply list"
  FetchBlockBySha :: "ShaHash \<Rightarrow> error + Block"

text \<open>The calls a resolution makes to its collaborators, in the order they are made.\<close>

datatype call =
    CallGetPrevNodeFromNode ShaHash
  | CallFetchTxByShaList "ShaHash list"
  | CallGetReorganizeNodes "ShaHash option"
  | CallFetchBlockBySha ShaHash

section \<open>fetchTxList\<close>

text \<open>Line 109: \<open>&txData{hash: hash, err: btcdb.TxShaMissing}\<close>.\<close>

definition missingTxData :: "ShaHash \<Rightarrow> txData" where
  "missingTxData h = \<lparr>tx = None, hash = h, blockHeight = 0, spent = None, err = Some TxShaMissing\<rparr>"

text \<open>Lines 107 to 110.\<close>

fun initStore :: "txStore \<Rightarrow> ShaHash list \<Rightarrow> txStore" where
  "initStore txStore [] = txStore"
| "initStore txStore (h # hs) = initStore (txStore(h \<mapsto> missingTxData h)) hs"

text \<open>
  Lines 116 to 138: a reply without an entry is skipped; otherwise the reply's error is
  recorded and, if there is none, the transaction, its height and a copy of its bitmap.
\<close>

fun fillReplies :: "txStore \<Rightarrow> heap \<Rightarrow> TxListReply list \<Rightarrow> txStore \<times> heap" where
  "fillReplies txStore hp [] = (txStore, hp)"
| "fillReplies txStore hp (txReply # rest) =
     (case txStore (Sha txReply) of
        None \<Rightarrow> fillReplies txStore hp rest
      | Some txD \<Rightarrow>
          (case Err txReply of
             Some e \<Rightarrow> fillReplies (txStore(Sha txReply \<mapsto> txD\<lparr>err := Some e\<rparr>)) hp rest
           | None \<Rightarrow>
               (let (a, hp') = makeBools (length (elems hp (TxSpent txReply))) hp;
                    hp'' = copyBools (Some a) (TxSpent txReply) hp'
                in fillReplies
                     (txStore(Sha txReply \<mapsto>
                        txD\<lparr>err := None, tx := Tx txReply, blockHeight := Height txReply,
                            spent := Some a\<rparr>))
                     hp'' rest)))"

text \<open>
  Lines 154 to 162. The error returned by \<open>disconnectTransactions\<close> is not looked at
  (line 161); a panic is not caught.
\<close>

fun detachLoop ::
  "BlockChain \<Rightarrow> txStore \<Rightarrow> heap \<Rightarrow> call list \<Rightarrow> blockNode list \<Rightarrow>
   panic + ((error + txStore) \<times> heap \<times> call list)" where
  "detachLoop b txStore hp calls [] = Inr (Inr txStore, hp, calls)"
| "detachLoop b txStore hp calls (n # ns) =
     (let calls' = calls @ [CallFetchBlockBySha (nodeHash n)]
      in case FetchBlockBySha b (nodeHash n) of
           Inl e \<Rightarrow> Inr (Inl e, hp, calls')
         | Inr block \<Rightarrow>
             (case disconnectTransactions txStore hp block of
                Inl p \<Rightarrow> Inl p
              | Inr (_, txStore', hp') \<Rightarrow> detachLoop b txStore' hp' calls' ns))"

text \<open>
  Lines 176 to 186: a node without a block in the side chain cache ends the call with the
  error built by \<open>fmt.Errorf\<close>.
\<close>

fun attachLoop ::
  "BlockChain \<Rightarrow> txStore \<Rightarrow> heap \<Rightarrow> call list \<Rightarrow> blockNode list \<Rightarrow>
   panic + ((error + txStore) \<times> heap \<times> call list)" where
  "attachLoop b txStore hp calls [] = Inr (Inr txStore, hp, calls)"
| "attachLoop b txStore hp calls (n # ns) =
     (case blockCache b (nodeHash n) of
        None \<Rightarrow> Inr (Inl (SideChainCacheMiss (nodeHash n)), hp, calls)
      | Some block \<Rightarrow>
          (case connectTransactions txStore hp block of
             Inl p \<Rightarrow> Inl p
           | Inr (_, txStore', hp') \<Rightarrow> attachLoop b txStore' hp' calls ns))"

text \<open>
  Line 144: no best chain yet, or the previous node is the end of the best chain.
\<close>

definition extendsBestChain :: "BlockChain \<Rightarrow> blockNode option \<Rightarrow> bool" where
  "extendsBestChain b prevNode =
     (case bestChain b of
        None \<Rightarrow> True
      | Some best \<Rightarrow>
          (case prevNode of None \<Rightarrow> False | Some p \<Rightarrow> nodeHash p = nodeHash best))"

text \<open>
  What a loop hands back becomes the pair \<open>(map, error)\<close> that Go returns: the map is nil
  (\<open>None\<close>) beside an error.
\<close>

definition returned ::
  "panic + ((error + txStore) \<times> heap \<times> call list) \<Rightarrow>
   panic + ((txStore option \<times> error option) \<times> heap \<times> call list)" where
  "returned r =
     (case r of
        Inl p \<Rightarrow> Inl p
      | Inr (Inl e, hp, calls) \<Rightarrow> Inr ((None, Some e), hp, calls)
      | Inr (Inr txStore, hp, calls) \<Rightarrow> Inr ((Some txStore, None), hp, calls))"

text \<open>
  \<open>fetchTxList\<close> (lines 94 to 189). The result is a panic, or the pair Go returns with
  the arrays and the collaborator calls made. \<open>txList\<close> is a slice of pointers to
  hashes and each reply points to its hash; the model holds the hashes themselves, so none
  of these pointers is nil.
\<close>

definition fetchTxList ::
  "BlockChain \<Rightarrow> heap \<Rightarrow> blockNode \<Rightarrow> ShaHash list \<Rightarrow>
   panic + ((txStore option \<times> error option) \<times> heap \<times> call list)" where
  "fetchTxList b hp node txList =
     (case getPrevNodeFromNode b node of
        Inl e \<Rightarrow> Inr ((None, Some e), hp, [CallGetPrevNodeFromNode (nodeHash node)])
      | Inr prevNode \<Rightarrow>
          (let txStore = initStore Map.empty txList;
               txReplyList = FetchTxByShaList b txList;
               (txStore, hp) = fillReplies txStore hp txReplyList;
               calls = [CallGetPrevNodeFromNode (nodeHash node), CallFetchTxByShaList txList]
           in if extendsBestChain b prevNode
              then Inr ((Some txStore, None), hp, calls)
              else
                (let (detachNodes, attachNodes) = getReorganizeNodes b prevNode;
                     calls = calls @ [CallGetReorganizeNodes (map_option nodeHash prevNode)]
                 in case detachLoop b txStore hp calls detachNodes of
                      Inl p \<Rightarrow> Inl p
                    | Inr (Inl e, hp, calls) \<Rightarrow> Inr ((None, Some e), hp, calls)
                    | Inr (Inr txStore, hp, calls) \<Rightarrow>
                        if attachNodes = []
                        then Inr ((Some txStore, None), hp, calls)
                        else returned (attachLoop b txStore hp calls attachNodes))))"

section \<open>fetchInputTransactions\<close>

text \<open>
  Lines 198 to 206. The error of \<open>block.TxSha\<close> is dropped; with an error the hash
  pointer would be nil and line 205 would dereference it.
\<close>

fun inFlightLoop ::
  "Block \<Rightarrow> (ShaHash \<rightharpoonup> MsgTx) \<Rightarrow> (nat \<times> MsgTx) list \<Rightarrow> panic + (ShaHash \<rightharpoonup> MsgTx)" where
  "inFlightLoop block txInFlight [] = Inr txInFlight"
| "inFlightLoop block txInFlight ((i, t) # rest) =
     (case blockTxSha block i of
        Inl e \<Rightarrow> Inl NilDereference
      | Inr txHash \<Rightarrow> inFlightLoop block (txInFlight(txHash \<mapsto> t)) rest)"

text \<open>
  Lines 214 to 232, the inputs of one transaction: the entry is set to missing, then either
  filled from the in-flight transaction or its hash is appended to the needed list.
\<close>

fun collectInputs ::
  "(ShaHash \<rightharpoonup> MsgTx) \<Rightarrow> blockNode \<Rightarrow> txStore \<Rightarrow> heap \<Rightarrow> ShaHash list \<Rightarrow> TxIn list \<Rightarrow>
   txStore \<times> heap \<times> ShaHash list" where
  "collectInputs txInFlight node txStore hp txNeededList [] = (txStore, hp, txNeededList)"
| "collectInputs txInFlight node txStore hp txNeededList (txIn # ins) =
     (let originHash = Hash (PreviousOutpoint txIn);
          txD = missingTxData originHash
      in case txInFlight originHash of
           Some t \<Rightarrow>
             (let (a, hp') = makeBools (length (TxOut t)) hp
              in collectInputs txInFlight node
                   (txStore(originHash \<mapsto>
                      txD\<lparr>tx := Some t, blockHeight := height node, spent := Some a, err := None\<rparr>))
                   hp' txNeededList ins)
         | None \<Rightarrow>
             collectInputs txInFlight node (txStore(originHash \<mapsto> txD)) hp
               (txNeededList @ [originHash]) ins)"

text \<open>Lines 213 to 233, over the transactions after the coinbase.\<close>

fun collectLoop ::
  "(ShaHash \<rightharpoonup> MsgTx) \<Rightarrow> blockNode \<Rightarrow> txStore \<Rightarrow> heap \<Rightarrow> ShaHash list \<Rightarrow> MsgTx list \<Rightarrow>
   txStore \<times> heap \<times> ShaHash list" where
  "collectLoop txInFlight node txStore hp txNeededList [] = (txStore, hp, txNeededList)"
| "collectLoop txInFlight node txStore hp txNeededList (t # ts) =
     (let (txStore', hp', txNeededList') =
            collectInputs txInFlight node txStore hp txNeededList (TxIn t)
      in collectLoop txInFlight node txStore' hp' txNeededList' ts)"

text \<open>
  Lines 243 to 245: every entry of the needed store is put into the store under its own
  \<open>hash\<close> field. Go visits the entries of a map once each in an unspecified order; the
  keys of the needed store are among the requested hashes, and the model visits them in the
  order of that list. The order makes no difference (lemma \<open>mergeNeeded_map_add\<close>).
\<close>

fun mergeNeeded :: "txStore \<Rightarrow> txStore \<Rightarrow> ShaHash list \<Rightarrow> txStore" where
  "mergeNeeded txStore txNeededStore [] = txStore"
| "mergeNeeded txStore txNeededStore (k # ks) =
     (case txNeededStore k of
        None \<Rightarrow> mergeNeeded txStore txNeededStore ks
      | Some txD \<Rightarrow> mergeNeeded (txStore(hash txD \<mapsto> txD)) txNeededStore ks)"

text \<open>
  \<open>fetchInputTransactions\<close> (lines 194 to 248). \<open>Transactions[1:]\<close> panics on a block
  without transactions. Ranging over a nil map visits nothing.
\<close>

definition fetchInputTransactions ::
  "BlockChain \<Rightarrow> heap \<Rightarrow> blockNode \<Rightarrow> Block \<Rightarrow>
   panic + ((txStore option \<times> error option) \<times> heap \<times> call list)" where
  "fetchInputTransactions b hp node block =
     (case inFlightLoop block Map.empty (enumerate 0 (Transactions block)) of
        Inl p \<Rightarrow> Inl p
      | Inr txInFlight \<Rightarrow>
          (case Transactions block of
             [] \<Rightarrow> Inl SliceBoundsOutOfRange
           | coinbase # ts \<Rightarrow>
               (let (txStore, hp', txNeededList) =
                      collectLoop txInFlight node Map.empty hp [] ts
                in case fetchTxList b hp' node txNeededList of
                     Inl p \<Rightarrow> Inl p
                   | Inr ((_, Some e), hp'', calls) \<Rightarrow> Inr ((None, Some e), hp'', calls)
                   | Inr ((txNeededStore, None), hp'', calls) \<Rightarrow>
                       Inr ((Some (mergeNeeded txStore
                                     (case txNeededStore of None \<Rightarrow> Map.empty | Some s \<Rightarrow> s)
                                     txNeededList), None),
                            hp'', calls))))"

section \<open>Vocabulary of the statements\<close>

text \<open>
  The outputs that a list of inputs refers to, as pairs of origin hash and output index, and
  those that the inputs of a list of transactions refer to.
\<close>

definition outpoints :: "TxIn list \<Rightarrow> (ShaHash \<times> nat) set" where
  "outpoints ins = (\<lambda>i. (Hash (PreviousOutpoint i), unat (Index (PreviousOutpoint i)))) ` set ins"

definition spentBy :: "MsgTx list \<Rightarrow> (ShaHash \<times> nat) set" where
  "spentBy ts = (\<Union>t \<in> set ts. outpoints (TxIn t))"

text \<open>
  \<open>hits st ops a k\<close>: one of the outputs \<open>ops\<close> has index \<open>k\<close> and an origin whose
  entry in \<open>st\<close> has the array \<open>a\<close> as its bitmap.
\<close>

definition hits :: "txStore \<Rightarrow> (ShaHash \<times> nat) set \<Rightarrow> nat \<Rightarrow> nat \<Rightarrow> bool" where
  "hits st ops a k \<longleftrightarrow> (\<exists>h d. (h, k) \<in> ops \<and> st h = Some d \<and> spent d = Some a)"

text \<open>
  \<open>inRange st hp h k\<close>: the assignment of lines 50 and 79 for an input that refers to
  output \<open>k\<close> of \<open>h\<close> does not panic: \<open>h\<close> is not in the store, or the bitmap of
  its entry is longer than \<open>k\<close>.
\<close>

definition inRange :: "txStore \<Rightarrow> heap \<Rightarrow> ShaHash \<Rightarrow> nat \<Rightarrow> bool" where
  "inRange st hp h k =
     (case st h of
        None \<Rightarrow> True
      | Some d \<Rightarrow> (case spent d of None \<Rightarrow> False | Some a \<Rightarrow> a < length hp \<and> k < length (hp ! a)))"

text \<open>
  The two loops without the index: \<open>block.TxSha(i)\<close> is the hash of the transaction at
  hand and never fails inside the loop (lemmas \<open>connectTransactions_eq\<close> and
  \<open>disconnectTransactions_eq\<close>).
\<close>

fun connectTxs :: "64 word \<Rightarrow> txStore \<Rightarrow> heap \<Rightarrow> MsgTx list \<Rightarrow> panic + (txStore \<times> heap)" where
  "connectTxs hgt st hp [] = Inr (st, hp)"
| "connectTxs hgt st hp (t # ts) =
     (let (st', hp') = updateRequested st hp (TxSha t) t hgt
      in case setOrigins True st' hp' (TxIn t) of
           Inl p \<Rightarrow> Inl p
         | Inr hp'' \<Rightarrow> connectTxs hgt st' hp'' ts)"

fun disconnectTxs :: "txStore \<Rightarrow> heap \<Rightarrow> MsgTx list \<Rightarrow> panic + (txStore \<times> heap)" where
  "disconnectTxs st hp [] = Inr (st, hp)"
| "disconnectTxs st hp (t # ts) =
     (case setOrigins False (st(TxSha t := None)) hp (TxIn t) of
        Inl p \<Rightarrow> Inl p
      | Inr hp' \<Rightarrow> disconnectTxs (st(TxSha t := None)) hp' ts)"

text \<open>\<open>soleOwner st h a\<close>: no entry of \<open>st\<close> other than that of \<open>h\<close> has the array \<open>a\<close>.\<close>

definition soleOwner :: "txStore \<Rightarrow> ShaHash \<Rightarrow> nat \<Rightarrow> bool" where
  "soleOwner st h a \<longleftrightarrow> (\<forall>h' d'. st h' = Some d' \<and> spent d' = Some a \<longrightarrow> h' = h)"

text \<open>The spent flags of an entry, as a reader of the store sees them.\<close>

definition bitmap :: "heap \<Rightarrow> txData \<Rightarrow> bool list" where
  "bitmap hp d = elems hp (spent d)"

text \<open>
  In Go a non-nil slice always has its array. \<open>validRefs\<close> says so of the slices in a
  store; \<open>ownsBitmap st hp h\<close> says in addition that the entry of \<open>h\<close> shares its array
  with no other entry, as is the case for every bitmap this file makes (lines 41, 135 and
  227).
\<close>

definition validRefs :: "txStore \<Rightarrow> heap \<Rightarrow> bool" where
  "validRefs st hp \<longleftrightarrow> (\<forall>h d a. st h = Some d \<and> spent d = Some a \<longrightarrow> a < length hp)"

definition ownsBitmap :: "txStore \<Rightarrow> heap \<Rightarrow> ShaHash \<Rightarrow> bool" where
  "ownsBitmap st hp h \<longleftrightarrow>
     (\<forall>d a. st h = Some d \<and> spent d = Some a \<longrightarrow> a < length hp \<and> soleOwner st h a)"

text \<open>The last transaction of a list with the hash \<open>h\<close>.\<close>

definition lastTx :: "ShaHash \<Rightarrow> MsgTx list \<Rightarrow> MsgTx option" where
  "lastTx h ts = find (\<lambda>u. TxSha u = h) (rev ts)"

text \<open>
  The condition under which connecting the transactions \<open>ts\<close> reads no bitmap out of
  range. Take an input of a transaction \<open>t\<close> that refers to output \<open>k\<close> of \<open>h\<close>. If
  \<open>t\<close> or a transaction before it has the hash \<open>h\<close> and \<open>h\<close> is a key of the store,
  the entry has by then the bitmap made for the last such transaction \<open>u\<close>, and \<open>k\<close>
  must be below the number of outputs of \<open>u\<close>. Otherwise the entry is as it was passed
  in, and its bitmap must be longer than \<open>k\<close>.
\<close>

definition connectInRange :: "txStore \<Rightarrow> heap \<Rightarrow> MsgTx list \<Rightarrow> bool" where
  "connectInRange st hp ts \<longleftrightarrow>
     (\<forall>pre t post. ts = pre @ t # post \<longrightarrow>
        (\<forall>(h, k) \<in> outpoints (TxIn t).
           case lastTx h (pre @ [t]) of
             None \<Rightarrow> inRange st hp h k
           | Some u \<Rightarrow> h \<in> dom st \<longrightarrow> k < length (TxOut u)))"

text \<open>
  The same for disconnecting: the entry of \<open>t\<close> and of every transaction before it has
  been deleted when the inputs of \<open>t\<close> are looked at.
\<close>

definition disconnectInRange :: "txStore \<Rightarrow> heap \<Rightarrow> MsgTx list \<Rightarrow> bool" where
  "disconnectInRange st hp ts \<longleftrightarrow>
     (\<forall>pre t post. ts = pre @ t # post \<longrightarrow>
        (\<forall>(h, k) \<in> outpoints (TxIn t).
           h \<notin> TxSha ` set (pre @ [t]) \<longrightarrow> inRange st hp h k))"

text \<open>
  \<open>freshRefs st n\<close>: every bitmap of the store is an array at address \<open>n\<close> or above,
  that is, one made after the store of arrays had \<open>n\<close> of them. \<open>keyed st\<close>: every
  entry is filed under its own \<open>hash\<close> field.
\<close>

definition freshRefs :: "txStore \<Rightarrow> nat \<Rightarrow> bool" where
  "freshRefs st n \<longleftrightarrow> (\<forall>h d a. st h = Some d \<and> spent d = Some a \<longrightarrow> n \<le> a)"

definition keyed :: "txStore \<Rightarrow> bool" where
  "keyed st \<longleftrightarrow> (\<forall>h d. st h = Some d \<longrightarrow> hash d = h)"

text \<open>
  \<open>applyAll f st hp blocks\<close>: the mutator \<open>f\<close> applied to the blocks in turn, each
  call completing and returning no error.
\<close>

fun applyAll ::
  "(txStore \<Rightarrow> heap \<Rightarrow> Block \<Rightarrow> panic + (error option \<times> txStore \<times> heap)) \<Rightarrow>
   txStore \<Rightarrow> heap \<Rightarrow> Block list \<Rightarrow> (txStore \<times> heap) option" where
  "applyAll f st hp [] = Some (st, hp)"
| "applyAll f st hp (blk # blks) =
     (case f st hp blk of
        Inr (None, st', hp') \<Rightarrow> applyAll f st' hp' blks
      | _ \<Rightarrow> None)"

text \<open>
  \<open>resolved b hp node txList st hp'\<close>: the store \<open>st\<close> with the arrays \<open>hp'\<close> is what
  the whole resolution yields: the answer of the bulk query filled in and, unless the node
  extends the best chain, every block of the detach list fetched and disconnected and every
  block of the attach list found in the cache and connected, each call completing.
\<close>

definition resolved ::
  "BlockChain \<Rightarrow> heap \<Rightarrow> blockNode \<Rightarrow> ShaHash list \<Rightarrow> txStore \<Rightarrow> heap \<Rightarrow> bool" where
  "resolved b hp node txList st hp' \<longleftrightarrow>
     (\<exists>prevNode st0 hp0.
        getPrevNodeFromNode b node = Inr prevNode \<and>
        fillReplies (initStore Map.empty txList) hp (FetchTxByShaList b txList) = (st0, hp0) \<and>
        (if extendsBestChain b prevNode then st = st0 \<and> hp' = hp0
         else (\<exists>dblocks ablocks st1 hp1.
                 map (\<lambda>n. FetchBlockBySha b (nodeHash n)) (fst (getReorganizeNodes b prevNode)) =
                   map Inr dblocks \<and>
                 map (\<lambda>n. blockCache b (nodeHash n)) (snd (getReorganizeNodes b prevNode)) =
                   map Some ablocks \<and>
                 applyAll disconnectTransactions st0 hp0 dblocks = Some (st1, hp1) \<and>
                 applyAll connectTransactions st1 hp1 ablocks = Some (st, hp'))))"

text \<open>
  \<open>inFlightOK F node st hp\<close>: every entry of \<open>st\<close> for a hash that \<open>F\<close>, the map of
  in-flight transactions, knows is filled from that transaction as lines 225 to 228 do,
  with a bitmap of one \<open>false\<close> for each of its outputs.
\<close>

definition inFlightOK :: "(ShaHash \<rightharpoonup> MsgTx) \<Rightarrow> blockNode \<Rightarrow> txStore \<Rightarrow> heap \<Rightarrow> bool" where
  "inFlightOK F node st hp \<longleftrightarrow>
     (\<forall>h u d. F h = Some u \<and> st h = Some d \<longrightarrow>
        (\<exists>a. d = \<lparr>tx = Some u, hash = h, blockHeight = height node, spent = Some a, err = None\<rparr> \<and>
             a < length hp \<and> hp ! a = replicate (length (TxOut u)) False))"

section \<open>Example transactions, blocks and chains\<close>

text \<open>
  Transactions are named by their hashes: \<open>tx71\<close> has two outputs, \<open>tx72\<close> spends
  output 0 of \<open>tx71\<close>, \<open>tx73\<close> and \<open>tx77\<close> spend output 0 of \<open>tx58\<close>. Block
  \<open>blockW\<close> holds \<open>tx71\<close> and then \<open>tx72\<close>; \<open>blockD\<close> holds \<open>tx72\<close> without
  \<open>tx71\<close>. An input that refers to output \<open>i\<close> of \<open>h\<close> is \<open>spend h i\<close>.
\<close>

abbreviation "spend h i \<equiv> \<lparr>PreviousOutpoint = \<lparr>Hash = h, Index = i\<rparr>\<rparr>"

abbreviation "coinbaseW \<equiv> \<lparr>TxSha = 0xC5, TxIn = [], TxOut = [\<lparr>Value = 50\<rparr>]\<rparr>"

abbreviation "tx71 \<equiv> \<lparr>TxSha = 0x71, TxIn = [], TxOut = [\<lparr>Value = 20\<rparr>, \<lparr>Value = 30\<rparr>]\<rparr>"

abbreviation "tx72 \<equiv> \<lparr>TxSha = 0x72, TxIn = [spend 0x71 0], TxOut = [\<lparr>Value = 20\<rparr>]\<rparr>"

abbreviation "blockW \<equiv> \<lparr>Transactions = [coinbaseW, tx71, tx72], BlockHeight = 5\<rparr>"

abbreviation "tx58 \<equiv> \<lparr>TxSha = 0x58, TxIn = [], TxOut = [\<lparr>Value = 1\<rparr>, \<lparr>Value = 2\<rparr>]\<rparr>"

abbreviation "entry58 \<equiv> \<lparr>tx = Some tx58, hash = 0x58, blockHeight = 3, spent = Some 0, err = None\<rparr>"

abbreviation "storeW \<equiv> [0x58 \<mapsto> entry58, 0x71 \<mapsto> missingTxData 0x71]"

abbreviation "tx73 \<equiv> \<lparr>TxSha = 0x73, TxIn = [spend 0x58 0], TxOut = [\<lparr>Value = 1\<rparr>]\<rparr>"

abbreviation "blockC \<equiv> \<lparr>Transactions = [coinbaseW, tx73], BlockHeight = 5\<rparr>"

abbreviation "entry71 \<equiv> \<lparr>tx = Some tx71, hash = 0x71, blockHeight = 5, spent = Some 0, err = None\<rparr>"

abbreviation "blockD \<equiv> \<lparr>Transactions = [coinbaseW, tx72], BlockHeight = 5\<rparr>"

text \<open>
  A chain with the best chain ending in block \<open>0xB2\<close> on top of \<open>0xB1\<close> and a side
  block \<open>0xA2\<close> on top of \<open>0xB1\<close>. Both \<open>0xB2\<close> and \<open>0xA2\<close> hold the transaction
  \<open>0x77\<close>, which spends output 0 of \<open>0x58\<close>. Node \<open>0xA3\<close> is on top of the side block,
  node \<open>0xB3\<close> on top of the best chain. The database knows \<open>0x58\<close> and \<open>0x77\<close>
  and answers the bulk query with a reply for each, whatever is asked; a reply for a hash
  that was not requested is skipped (line 122). Its bitmaps are the arrays 0 and 1.
\<close>

abbreviation "tx77 \<equiv> \<lparr>TxSha = 0x77, TxIn = [spend 0x58 0], TxOut = [\<lparr>Value = 1\<rparr>]\<rparr>"

abbreviation "blockM2 \<equiv> \<lparr>Transactions = [\<lparr>TxSha = 0xC2, TxIn = [], TxOut = [\<lparr>Value = 50\<rparr>]\<rparr>, tx77], BlockHeight = 2\<rparr>"

abbreviation "blockS2 \<equiv> \<lparr>Transactions = [\<lparr>TxSha = 0xC3, TxIn = [], TxOut = [\<lparr>Value = 50\<rparr>]\<rparr>, tx77], BlockHeight = 2\<rparr>"

abbreviation "nodeM2 \<equiv> \<lparr>nodeHash = 0xB2, height = 2\<rparr>"

abbreviation "nodeS2 \<equiv> \<lparr>nodeHash = 0xA2, height = 2\<rparr>"

abbreviation "nodeA3 \<equiv> \<lparr>nodeHash = 0xA3, height = 3\<rparr>"

abbreviation "nodeB3 \<equiv> \<lparr>nodeHash = 0xB3, height = 3\<rparr>"

abbreviation "reply58 \<equiv> \<lparr>Sha = 0x58, Tx = Some tx58, Height = 1, TxSpent = Some 0, Err = None\<rparr>"

abbreviation "reply77 \<equiv> \<lparr>Sha = 0x77, Tx = Some tx77, Height = 2, TxSpent = Some 1, Err = None\<rparr>"

abbreviation "chainR \<equiv>
  \<lparr>bestChain = Some nodeM2,
   blockCache = [0xA2 \<mapsto> blockS2],
   getPrevNodeFromNode =
     (\<lambda>n. if nodeHash n = 0xA3 then Inr (Some nodeS2)
          else if nodeHash n = 0xB3 then Inr (Some nodeM2)
          else Inl (StorageError ''no parent'')),
   getReorganizeNodes =
     (\<lambda>p. if map_option nodeHash p = Some 0xA2 then ([nodeM2], [nodeS2]) else ([], [])),
   FetchTxByShaList = (\<lambda>hs. [reply58, reply77]),
   FetchBlockBySha = (\<lambda>h. if h = 0xB2 then Inr blockM2 else Inl (StorageError ''no block''))\<rparr>"

abbreviation "entry58c \<equiv> \<lparr>tx = Some tx58, hash = 0x58, blockHeight = 1, spent = Some 2, err = None\<rparr>"

abbreviation "tx74 \<equiv> \<lparr>TxSha = 0x74, TxIn = [spend 0x71 0, spend 0x58 1], TxOut = [\<lparr>Value = 1\<rparr>]\<rparr>"

abbreviation "blockF \<equiv> \<lparr>Transactions = [coinbaseW, tx71, tx74], BlockHeight = 3\<rparr>"

section \<open>The assignment loop\<close>

lemma outpoints_Nil [simp]: "outpoints [] = {}"
  by (simp add: outpoints_def)

lemma outpoints_Cons [simp]:
  "outpoints (i # ins) = insert (Hash (PreviousOutpoint i), unat (Index (PreviousOutpoint i))) (outpoints ins)"
  by (simp add: outpoints_def)

lemma spentBy_Nil [simp]: "spentBy [] = {}"
  by (simp add: spentBy_def)

lemma spentBy_Cons [simp]: "spentBy (t # ts) = outpoints (TxIn t) \<union> spentBy ts"
  by (simp add: spentBy_def)

lemma spentBy_append [simp]: "spentBy (xs @ ys) = spentBy xs \<union> spentBy ys"
  by (simp add: spentBy_def)

lemma hits_empty [simp]: "\<not> hits st {} a k"
  by (simp add: hits_def)

lemma hits_insert:
  "hits st (insert (h, k') ops) a k \<longleftrightarrow>
     (k' = k \<and> (\<exists>d. st h = Some d \<and> spent d = Some a)) \<or> hits st ops a k"
  by (auto simp: hits_def)

lemma hits_Un: "hits st (A \<union> B) a k \<longleftrightarrow> hits st A a k \<or> hits st B a k"
  by (auto simp: hits_def)

lemma setIndex_Inr:
  "setIndex s i v hp = Inr hp' \<longleftrightarrow>
     (\<exists>a. s = Some a \<and> a < length hp \<and> i < length (hp ! a) \<and> hp' = hp[a := (hp ! a)[i := v]])"
  by (auto simp: setIndex_def split: option.splits)

lemma setOrigins_length:
  "setOrigins v st hp ins = Inr hp' \<Longrightarrow> length hp' = length hp"
proof (induction ins arbitrary: hp)
  case Nil then show ?case by simp
next
  case (Cons i ins)
  then show ?case
    by (auto simp: Let_def setIndex_Inr split: option.splits sum.splits)
qed

lemma setOrigins_array:
  assumes "setOrigins v st hp ins = Inr hp'" and "a < length hp"
  shows "length (hp' ! a) = length (hp ! a) \<and>
         (\<forall>k < length (hp ! a). (hp' ! a) ! k = (if hits st (outpoints ins) a k then v else (hp ! a) ! k))"
  using assms
proof (induction ins arbitrary: hp)
  case Nil then show ?case by simp
next
  case (Cons i ins)
  let ?h = "Hash (PreviousOutpoint i)" and ?k = "unat (Index (PreviousOutpoint i))"
  show ?case
  proof (cases "st ?h")
    case None
    with Cons.prems have "setOrigins v st hp ins = Inr hp'" by (simp add: Let_def)
    from Cons.IH[OF this Cons.prems(2)] None show ?thesis
      by (simp add: hits_insert)
  next
    case (Some d)
    with Cons.prems obtain b where b: "spent d = Some b" "b < length hp" "?k < length (hp ! b)"
      and rest: "setOrigins v st (hp[b := (hp ! b)[?k := v]]) ins = Inr hp'"
      by (auto simp: Let_def setIndex_Inr split: sum.splits)
    let ?hp1 = "hp[b := (hp ! b)[?k := v]]"
    have a1: "a < length ?hp1" using Cons.prems(2) by simp
    note IH = Cons.IH[OF rest a1]
    show ?thesis
    proof (cases "b = a")
      case True
      with b have len: "length (?hp1 ! a) = length (hp ! a)" by simp
      show ?thesis
      proof (intro conjI allI impI)
        show "length (hp' ! a) = length (hp ! a)" using IH len by simp
      next
        fix k assume k: "k < length (hp ! a)"
        then have "(hp' ! a) ! k = (if hits st (outpoints ins) a k then v else (?hp1 ! a) ! k)"
          using IH len by simp
        moreover have "(?hp1 ! a) ! k = (if k = ?k then v else (hp ! a) ! k)"
          using True b k by (simp add: nth_list_update)
        ultimately show "(hp' ! a) ! k = (if hits st (outpoints (i # ins)) a k then v else (hp ! a) ! k)"
          using Some b True by (auto simp: hits_insert)
      qed
    next
      case False
      then have same: "?hp1 ! a = hp ! a" by simp
      have "\<And>k. hits st (outpoints (i # ins)) a k = hits st (outpoints ins) a k"
        using Some b False by (auto simp: hits_insert)
      with IH same show ?thesis by simp
    qed
  qed
qed

lemma inRange_cong:
  assumes "length hp1 = length hp" and "\<And>a. a < length hp \<Longrightarrow> length (hp1 ! a) = length (hp ! a)"
  shows "inRange st hp1 h k = inRange st hp h k"
  using assms by (auto simp: inRange_def split: option.splits)

lemma setOrigins_completes:
  "(\<exists>hp'. setOrigins v st hp ins = Inr hp') \<longleftrightarrow> (\<forall>(h, k) \<in> outpoints ins. inRange st hp h k)"
proof (induction ins arbitrary: hp)
  case Nil then show ?case by simp
next
  case (Cons i ins)
  let ?h = "Hash (PreviousOutpoint i)" and ?k = "unat (Index (PreviousOutpoint i))"
  show ?case
  proof (cases "st ?h")
    case None
    then show ?thesis using Cons.IH[of hp] by (simp add: Let_def inRange_def)
  next
    case (Some d)
    show ?thesis
    proof (cases "inRange st hp ?h ?k")
      case False
      then have "setIndex (spent d) ?k v hp = Inl IndexOutOfRange"
        using Some by (auto simp: setIndex_def inRange_def split: option.splits)
      with Some False show ?thesis by (simp add: Let_def)
    next
      case True
      then obtain b where b: "spent d = Some b" "b < length hp" "?k < length (hp ! b)"
        using Some by (auto simp: inRange_def split: option.splits)
      let ?hp1 = "hp[b := (hp ! b)[?k := v]]"
      have si: "setIndex (spent d) ?k v hp = Inr ?hp1" using b by (simp add: setIndex_def)
      have cong: "\<And>h k. inRange st ?hp1 h k = inRange st hp h k"
        using b by (intro inRange_cong) (auto simp: nth_list_update)
      have "(\<exists>hp'. setOrigins v st hp (i # ins) = Inr hp') \<longleftrightarrow> (\<exists>hp'. setOrigins v st ?hp1 ins = Inr hp')"
        using Some si by (simp add: Let_def)
      then show ?thesis using True by (simp add: Cons.IH cong)
    qed
  qed
qed

section \<open>The loops of the mutators\<close>

lemma drop_eq_ConsD':
  assumes "drop n xs = y # ys"
  shows "n < length xs \<and> xs ! n = y \<and> drop (Suc n) xs = ys"
proof -
  have n: "n < length xs" using assms by (cases "n < length xs") auto
  have "drop n xs = xs ! n # drop (Suc n) xs" using n by (rule Cons_nth_drop_Suc[symmetric])
  with assms n show ?thesis by simp
qed

lemma connectLoop_enumerate:
  "drop n (Transactions block) = ts \<Longrightarrow>
   connectLoop block st hp (enumerate n ts) =
     (case connectTxs (BlockHeight block) st hp ts of
        Inl p \<Rightarrow> Inl p
      | Inr (st', hp') \<Rightarrow> Inr (None, st', hp'))"
proof (induction ts arbitrary: n st hp)
  case Nil then show ?case by simp
next
  case (Cons t ts)
  from drop_eq_ConsD'[OF Cons.prems]
  have n: "n < length (Transactions block)" "Transactions block ! n = t"
    and d: "drop (Suc n) (Transactions block) = ts" by simp_all
  have sha: "blockTxSha block n = Inr (TxSha t)" using n by (simp add: blockTxSha_def)
  show ?case
    using Cons.IH[OF d] sha
    by (simp add: Let_def split: prod.splits sum.splits)
qed

lemma disconnectLoop_enumerate:
  "drop n (Transactions block) = ts \<Longrightarrow>
   disconnectLoop block st hp (enumerate n ts) =
     (case disconnectTxs st hp ts of
        Inl p \<Rightarrow> Inl p
      | Inr (st', hp') \<Rightarrow> Inr (None, st', hp'))"
proof (induction ts arbitrary: n st hp)
  case Nil then show ?case by simp
next
  case (Cons t ts)
  from drop_eq_ConsD'[OF Cons.prems]
  have n: "n < length (Transactions block)" "Transactions block ! n = t"
    and d: "drop (Suc n) (Transactions block) = ts" by simp_all
  have sha: "blockTxSha block n = Inr (TxSha t)" using n by (simp add: blockTxSha_def)
  let ?st = "st(TxSha t := None)"
  have "disconnectLoop block st hp (enumerate n (t # ts)) =
          (case setOrigins False ?st hp (TxIn t) of
             Inl p \<Rightarrow> Inl p
           | Inr hp' \<Rightarrow> disconnectLoop block ?st hp' (enumerate (Suc n) ts))"
    using sha by (simp add: Let_def)
  also have "\<dots> =
          (case setOrigins False ?st hp (TxIn t) of
             Inl p \<Rightarrow> Inl p
           | Inr hp' \<Rightarrow>
               (case disconnectTxs ?st hp' ts of
                  Inl p \<Rightarrow> Inl p
                | Inr (st', hp') \<Rightarrow> Inr (None, st', hp')))"
    by (simp only: Cons.IH[OF d])
  also have "\<dots> =
          (case disconnectTxs st hp (t # ts) of
             Inl p \<Rightarrow> Inl p
           | Inr (st', hp') \<Rightarrow> Inr (None, st', hp'))"
    by (cases "setOrigins False ?st hp (TxIn t)") simp_all
  finally show ?case .
qed

lemma connectTransactions_eq:
  "connectTransactions st hp block =
     (case connectTxs (BlockHeight block) st hp (Transactions block) of
        Inl p \<Rightarrow> Inl p
      | Inr (st', hp') \<Rightarrow> Inr (None, st', hp'))"
  unfolding connectTransactions_def by (rule connectLoop_enumerate) simp

lemma disconnectTransactions_eq:
  "disconnectTransactions st hp block =
     (case disconnectTxs st hp (Transactions block) of
        Inl p \<Rightarrow> Inl p
      | Inr (st', hp') \<Rightarrow> Inr (None, st', hp'))"
  unfolding disconnectTransactions_def by (rule disconnectLoop_enumerate) simp

lemma connectTransactions_Inr:
  "connectTransactions st hp block = Inr (e, st', hp') \<longleftrightarrow>
     e = None \<and> connectTxs (BlockHeight block) st hp (Transactions block) = Inr (st', hp')"
  by (auto simp: connectTransactions_eq split: sum.splits)

lemma disconnectTransactions_Inr:
  "disconnectTransactions st hp block = Inr (e, st', hp') \<longleftrightarrow>
     e = None \<and> disconnectTxs st hp (Transactions block) = Inr (st', hp')"
  by (auto simp: disconnectTransactions_eq split: sum.splits)

lemma connectTxs_append:
  "connectTxs hgt st hp (xs @ ys) =
     (case connectTxs hgt st hp xs of
        Inl p \<Rightarrow> Inl p
      | Inr (st', hp') \<Rightarrow> connectTxs hgt st' hp' ys)"
  by (induction xs arbitrary: st hp) (auto simp: Let_def split: prod.splits sum.splits)

lemma disconnectTxs_append:
  "disconnectTxs st hp (xs @ ys) =
     (case disconnectTxs st hp xs of
        Inl p \<Rightarrow> Inl p
      | Inr (st', hp') \<Rightarrow> disconnectTxs st' hp' ys)"
  by (induction xs arbitrary: st hp) (auto split: sum.splits)

text \<open>One step of the connect loop, taken apart.\<close>

lemma connectTxs_ConsE:
  assumes "connectTxs hgt st hp (t # ts) = Inr (st', hp')"
  obtains st1 hp1 hp2 where
    "updateRequested st hp (TxSha t) t hgt = (st1, hp1)"
    "setOrigins True st1 hp1 (TxIn t) = Inr hp2"
    "connectTxs hgt st1 hp2 ts = Inr (st', hp')"
  using assms by (auto simp: Let_def split: prod.splits sum.splits)

lemma disconnectTxs_ConsE:
  assumes "disconnectTxs st hp (t # ts) = Inr (st', hp')"
  obtains hp1 where
    "setOrigins False (st(TxSha t := None)) hp (TxIn t) = Inr hp1"
    "disconnectTxs (st(TxSha t := None)) hp1 ts = Inr (st', hp')"
  using assms by (auto split: sum.splits)

lemma updateRequested_cases:
  assumes "updateRequested st hp h t hgt = (st1, hp1)"
  shows "(st h = None \<and> st1 = st \<and> hp1 = hp) \<or>
         (\<exists>d. st h = Some d \<and>
               st1 = st(h \<mapsto> d\<lparr>tx := Some t, blockHeight := hgt, spent := Some (length hp), err := None\<rparr>) \<and>
               hp1 = hp @ [replicate (length (TxOut t)) False])"
  using assms by (auto simp: updateRequested_def makeBools_def split: option.splits)

lemma updateRequested_dom:
  "updateRequested st hp h t hgt = (st1, hp1) \<Longrightarrow> dom st1 = dom st"
  by (drule updateRequested_cases) (auto split: if_splits)

lemma updateRequested_other:
  "updateRequested st hp h t hgt = (st1, hp1) \<Longrightarrow> h' \<noteq> h \<Longrightarrow> st1 h' = st h'"
  by (drule updateRequested_cases) auto

lemma updateRequested_heap:
  "updateRequested st hp h t hgt = (st1, hp1) \<Longrightarrow>
     length hp \<le> length hp1 \<and> (\<forall>a < length hp. hp1 ! a = hp ! a)"
  by (drule updateRequested_cases) (auto simp: nth_append)

lemma updateRequested_refs:
  "updateRequested st hp h t hgt = (st1, hp1) \<Longrightarrow> st1 h' = Some d' \<Longrightarrow> spent d' = Some a \<Longrightarrow>
     a < length hp \<Longrightarrow> st h' = Some d'"
  by (drule updateRequested_cases) (auto split: if_splits)

lemma updateRequested_hash:
  "updateRequested st hp h t hgt = (st1, hp1) \<Longrightarrow> st1 h' = Some d' \<Longrightarrow>
     \<exists>d. st h' = Some d \<and> hash d = hash d'"
  by (drule updateRequested_cases) (auto split: if_splits)

lemma connectTxs_dom:
  "connectTxs hgt st hp ts = Inr (st', hp') \<Longrightarrow> dom st' = dom st"
proof (induction ts arbitrary: st hp)
  case Nil then show ?case by simp
next
  case (Cons t ts)
  from Cons.prems show ?case
  proof (elim connectTxs_ConsE)
    fix st1 hp1 hp2
    assume u: "updateRequested st hp (TxSha t) t hgt = (st1, hp1)"
      and r: "connectTxs hgt st1 hp2 ts = Inr (st', hp')"
    have "dom st' = dom st1" using r by (rule Cons.IH)
    also have "\<dots> = dom st" using u by (rule updateRequested_dom)
    finally show ?thesis .
  qed
qed

lemma connectTxs_other:
  "connectTxs hgt st hp ts = Inr (st', hp') \<Longrightarrow> h \<notin> TxSha ` set ts \<Longrightarrow> st' h = st h"
proof (induction ts arbitrary: st hp)
  case Nil then show ?case by simp
next
  case (Cons t ts)
  from Cons.prems(1) show ?case
  proof (elim connectTxs_ConsE)
    fix st1 hp1 hp2
    assume u: "updateRequested st hp (TxSha t) t hgt = (st1, hp1)"
      and r: "connectTxs hgt st1 hp2 ts = Inr (st', hp')"
    have "st' h = st1 h" using Cons.IH[OF r] Cons.prems(2) by simp
    also have "\<dots> = st h" using updateRequested_other[OF u] Cons.prems(2) by auto
    finally show ?thesis .
  qed
qed

lemma disconnectTxs_entries:
  "disconnectTxs st hp ts = Inr (st', hp') \<Longrightarrow> st' h = (if h \<in> TxSha ` set ts then None else st h)"
proof (induction ts arbitrary: st hp)
  case Nil then show ?case by simp
next
  case (Cons t ts)
  from Cons.prems show ?case
  proof (elim disconnectTxs_ConsE)
    fix hp1
    assume r: "disconnectTxs (st(TxSha t := None)) hp1 ts = Inr (st', hp')"
    show ?thesis using Cons.IH[OF r] by simp
  qed
qed

lemma disconnectTxs_dom:
  "disconnectTxs st hp ts = Inr (st', hp') \<Longrightarrow> dom st' = dom st - TxSha ` set ts"
  by (auto simp: dom_def disconnectTxs_entries)

lemma connectTxs_hash:
  "connectTxs hgt st hp ts = Inr (st', hp') \<Longrightarrow> st' h = Some d' \<Longrightarrow>
     \<exists>d. st h = Some d \<and> hash d = hash d'"
proof (induction ts arbitrary: st hp)
  case Nil then show ?case by simp
next
  case (Cons t ts)
  from Cons.prems(1) show ?case
  proof (elim connectTxs_ConsE)
    fix st1 hp1 hp2
    assume u: "updateRequested st hp (TxSha t) t hgt = (st1, hp1)"
      and r: "connectTxs hgt st1 hp2 ts = Inr (st', hp')"
    from Cons.IH[OF r Cons.prems(2)] obtain d1 where "st1 h = Some d1" "hash d1 = hash d'" by blast
    with updateRequested_hash[OF u] show ?thesis by fastforce
  qed
qed

lemma connectTxs_heap_length:
  "connectTxs hgt st hp ts = Inr (st', hp') \<Longrightarrow> length hp \<le> length hp'"
proof (induction ts arbitrary: st hp)
  case Nil then show ?case by simp
next
  case (Cons t ts)
  from Cons.prems show ?case
    by (elim connectTxs_ConsE)
       (auto dest!: Cons.IH updateRequested_heap setOrigins_length)
qed

lemma disconnectTxs_heap_length:
  "disconnectTxs st hp ts = Inr (st', hp') \<Longrightarrow> length hp' = length hp"
proof (induction ts arbitrary: st hp)
  case Nil then show ?case by simp
next
  case (Cons t ts)
  from Cons.prems show ?case
    by (elim disconnectTxs_ConsE) (auto dest!: Cons.IH setOrigins_length)
qed

lemma hits_updateRequested:
  assumes "updateRequested st hp h t hgt = (st1, hp1)" and "a < length hp" and "hits st1 ops a k"
  shows "hits st ops a k"
  using assms(3) updateRequested_refs[OF assms(1) _ _ assms(2)]
  unfolding hits_def by blast

lemma hits_delete: "hits (st(h := None)) ops a k \<Longrightarrow> hits st ops a k"
  unfolding hits_def by (auto split: if_splits)

lemma setOrigins_unreferenced:
  assumes "setOrigins v st hp ins = Inr hp'" and "a < length hp"
    and "\<And>k. \<not> hits st (outpoints ins) a k"
  shows "hp' ! a = hp ! a"
  using setOrigins_array[OF assms(1,2)] assms(3) by (auto intro: nth_equalityI)

lemma connectTxs_unreferenced:
  "connectTxs hgt st hp ts = Inr (st', hp') \<Longrightarrow> a < length hp \<Longrightarrow>
   (\<And>k. \<not> hits st (spentBy ts) a k) \<Longrightarrow> hp' ! a = hp ! a"
proof (induction ts arbitrary: st hp)
  case Nil then show ?case by simp
next
  case (Cons t ts)
  from Cons.prems(1) show ?case
  proof (elim connectTxs_ConsE)
    fix st1 hp1 hp2
    assume u: "updateRequested st hp (TxSha t) t hgt = (st1, hp1)"
      and so: "setOrigins True st1 hp1 (TxIn t) = Inr hp2"
      and r: "connectTxs hgt st1 hp2 ts = Inr (st', hp')"
    from updateRequested_heap[OF u] Cons.prems(2)
    have a1: "a < length hp1" and e1: "hp1 ! a = hp ! a" by auto
    have nohit: "\<not> hits st1 (spentBy (t # ts)) a k" for k
      using hits_updateRequested[OF u Cons.prems(2)] Cons.prems(3) by blast
    have nh1: "\<not> hits st1 (outpoints (TxIn t)) a k" and nh2: "\<not> hits st1 (spentBy ts) a k" for k
      using nohit[of k] by (simp_all add: hits_Un)
    have e2: "hp2 ! a = hp1 ! a"
      using so a1 nh1 by (rule setOrigins_unreferenced)
    have a2: "a < length hp2" using setOrigins_length[OF so] a1 by simp
    have "hp' ! a = hp2 ! a"
      using r a2 nh2 by (rule Cons.IH)
    with e1 e2 show ?thesis by simp
  qed
qed

lemma disconnectTxs_unreferenced:
  "disconnectTxs st hp ts = Inr (st', hp') \<Longrightarrow> a < length hp \<Longrightarrow>
   (\<And>k. \<not> hits st (spentBy ts) a k) \<Longrightarrow> hp' ! a = hp ! a"
proof (induction ts arbitrary: st hp)
  case Nil then show ?case by simp
next
  case (Cons t ts)
  from Cons.prems(1) show ?case
  proof (elim disconnectTxs_ConsE)
    fix hp1
    let ?st1 = "st(TxSha t := None)"
    assume so: "setOrigins False ?st1 hp (TxIn t) = Inr hp1"
      and r: "disconnectTxs ?st1 hp1 ts = Inr (st', hp')"
    have nohit: "\<not> hits ?st1 (spentBy (t # ts)) a k" for k
      using hits_delete Cons.prems(3) by blast
    have nh1: "\<not> hits ?st1 (outpoints (TxIn t)) a k" and nh2: "\<not> hits ?st1 (spentBy ts) a k" for k
      using nohit[of k] by (simp_all add: hits_Un)
    have e1: "hp1 ! a = hp ! a"
      using so Cons.prems(2) nh1 by (rule setOrigins_unreferenced)
    have a1: "a < length hp1" using setOrigins_length[OF so] Cons.prems(2) by simp
    have "hp' ! a = hp1 ! a"
      using r a1 nh2 by (rule Cons.IH)
    with e1 show ?thesis by simp
  qed
qed

lemma hits_soleOwner:
  assumes "soleOwner st h a" and "st h = Some d" and "spent d = Some a"
  shows "hits st ops a k \<longleftrightarrow> (h, k) \<in> ops"
  using assms unfolding hits_def soleOwner_def by blast

lemma soleOwner_updateRequested:
  assumes "updateRequested st hp h' t hgt = (st1, hp1)" and "a < length hp" and "soleOwner st h a"
  shows "soleOwner st1 h a"
  using assms(3) updateRequested_refs[OF assms(1) _ _ assms(2)]
  unfolding soleOwner_def by blast

lemma soleOwner_delete: "soleOwner st h a \<Longrightarrow> soleOwner (st(h' := None)) h a"
  unfolding soleOwner_def by (auto split: if_splits)

text \<open>An array that belongs to one entry alone, of a transaction the block does not contain.\<close>

lemma connectTxs_owned:
  "connectTxs hgt st hp ts = Inr (st', hp') \<Longrightarrow> h \<notin> TxSha ` set ts \<Longrightarrow>
   st h = Some d \<Longrightarrow> spent d = Some a \<Longrightarrow> a < length hp \<Longrightarrow> soleOwner st h a \<Longrightarrow>
   soleOwner st' h a \<and> length (hp' ! a) = length (hp ! a) \<and>
   (\<forall>k < length (hp ! a). (hp' ! a) ! k \<longleftrightarrow> (hp ! a) ! k \<or> (h, k) \<in> spentBy ts) \<and>
   (\<forall>k. (h, k) \<in> spentBy ts \<longrightarrow> k < length (hp ! a))"
proof (induction ts arbitrary: st hp)
  case Nil then show ?case by simp
next
  case (Cons t ts)
  from Cons.prems(1) show ?case
  proof (elim connectTxs_ConsE)
    fix st1 hp1 hp2
    assume u: "updateRequested st hp (TxSha t) t hgt = (st1, hp1)"
      and so: "setOrigins True st1 hp1 (TxIn t) = Inr hp2"
      and r: "connectTxs hgt st1 hp2 ts = Inr (st', hp')"
    have ne: "h \<noteq> TxSha t" and notin: "h \<notin> TxSha ` set ts" using Cons.prems(2) by auto
    have st1h: "st1 h = Some d" using updateRequested_other[OF u ne] Cons.prems(3) by simp
    from updateRequested_heap[OF u] Cons.prems(5)
    have a1: "a < length hp1" and e1: "hp1 ! a = hp ! a" by auto
    have own1: "soleOwner st1 h a" using u Cons.prems(5,6) by (rule soleOwner_updateRequested)
    have hit: "hits st1 ops a k \<longleftrightarrow> (h, k) \<in> ops" for ops k
      using own1 st1h Cons.prems(4) by (rule hits_soleOwner)
    from setOrigins_array[OF so a1]
    have l2: "length (hp2 ! a) = length (hp ! a)"
      and b2: "\<And>k. k < length (hp ! a) \<Longrightarrow>
                 (hp2 ! a) ! k \<longleftrightarrow> (hp ! a) ! k \<or> (h, k) \<in> outpoints (TxIn t)"
      by (auto simp: e1 hit)
    have a2: "a < length hp2" using setOrigins_length[OF so] a1 by simp
    have rng: "k < length (hp ! a)" if "(h, k) \<in> outpoints (TxIn t)" for k
    proof -
      have "inRange st1 hp1 h k"
        using so that setOrigins_completes[of True st1 hp1 "TxIn t"] by blast
      then show ?thesis using st1h Cons.prems(4) e1 by (simp add: inRange_def)
    qed
    note IH = Cons.IH[OF r notin st1h Cons.prems(4) a2 own1]
    show ?thesis
    proof (intro conjI allI impI)
      show "soleOwner st' h a" using IH by simp
      show "length (hp' ! a) = length (hp ! a)" using IH l2 by simp
    next
      fix k assume k: "k < length (hp ! a)"
      then have "(hp' ! a) ! k \<longleftrightarrow> (hp2 ! a) ! k \<or> (h, k) \<in> spentBy ts" using IH l2 by simp
      then show "(hp' ! a) ! k \<longleftrightarrow> (hp ! a) ! k \<or> (h, k) \<in> spentBy (t # ts)"
        using b2[OF k] by auto
    next
      fix k assume "(h, k) \<in> spentBy (t # ts)"
      then show "k < length (hp ! a)" using rng IH l2 by auto
    qed
  qed
qed

lemma disconnectTxs_owned:
  "disconnectTxs st hp ts = Inr (st', hp') \<Longrightarrow> h \<notin> TxSha ` set ts \<Longrightarrow>
   st h = Some d \<Longrightarrow> spent d = Some a \<Longrightarrow> a < length hp \<Longrightarrow> soleOwner st h a \<Longrightarrow>
   length (hp' ! a) = length (hp ! a) \<and>
   (\<forall>k < length (hp ! a). (hp' ! a) ! k \<longleftrightarrow> (hp ! a) ! k \<and> (h, k) \<notin> spentBy ts)"
proof (induction ts arbitrary: st hp)
  case Nil then show ?case by simp
next
  case (Cons t ts)
  from Cons.prems(1) show ?case
  proof (elim disconnectTxs_ConsE)
    fix hp1
    let ?st1 = "st(TxSha t := None)"
    assume so: "setOrigins False ?st1 hp (TxIn t) = Inr hp1"
      and r: "disconnectTxs ?st1 hp1 ts = Inr (st', hp')"
    have ne: "h \<noteq> TxSha t" and notin: "h \<notin> TxSha ` set ts" using Cons.prems(2) by auto
    have st1h: "?st1 h = Some d" using ne Cons.prems(3) by simp
    have own1: "soleOwner ?st1 h a" using Cons.prems(6) by (rule soleOwner_delete)
    have hit: "hits ?st1 ops a k \<longleftrightarrow> (h, k) \<in> ops" for ops k
      using own1 st1h Cons.prems(4) by (rule hits_soleOwner)
    from setOrigins_array[OF so Cons.prems(5)]
    have l1: "length (hp1 ! a) = length (hp ! a)"
      and b1: "\<And>k. k < length (hp ! a) \<Longrightarrow>
                 (hp1 ! a) ! k \<longleftrightarrow> (hp ! a) ! k \<and> (h, k) \<notin> outpoints (TxIn t)"
      by (auto simp: hit)
    have a1: "a < length hp1" using setOrigins_length[OF so] Cons.prems(5) by simp
    note IH = Cons.IH[OF r notin st1h Cons.prems(4) a1 own1]
    show ?thesis
    proof (intro conjI allI impI)
      show "length (hp' ! a) = length (hp ! a)" using IH l1 by simp
    next
      fix k assume k: "k < length (hp ! a)"
      then have "(hp' ! a) ! k \<longleftrightarrow> (hp1 ! a) ! k \<and> (h, k) \<notin> spentBy ts" using IH l1 by simp
      then show "(hp' ! a) ! k \<longleftrightarrow> (hp ! a) ! k \<and> (h, k) \<notin> spentBy (t # ts)"
        using b1[OF k] by auto
    qed
  qed
qed

lemma bitmap_Some: "spent d = Some a \<Longrightarrow> a < length hp \<Longrightarrow> bitmap hp d = hp ! a"
  by (simp add: bitmap_def elems_def)

lemma bitmap_None: "spent d = None \<Longrightarrow> bitmap hp d = []"
  by (simp add: bitmap_def elems_def)

lemma validRefs_updateRequested:
  assumes "updateRequested st hp h t hgt = (st1, hp1)" and "validRefs st hp"
  shows "validRefs st1 hp1"
  using updateRequested_cases[OF assms(1)] assms(2)
  unfolding validRefs_def by (fastforce split: if_splits)

lemma validRefs_length:
  "validRefs st hp \<Longrightarrow> length hp \<le> length hp' \<Longrightarrow> validRefs st hp'"
  unfolding validRefs_def by fastforce

lemma connectTxs_validRefs:
  "connectTxs hgt st hp ts = Inr (st', hp') \<Longrightarrow> validRefs st hp \<Longrightarrow> validRefs st' hp'"
proof (induction ts arbitrary: st hp)
  case Nil then show ?case by simp
next
  case (Cons t ts)
  from Cons.prems(1) show ?case
  proof (elim connectTxs_ConsE)
    fix st1 hp1 hp2
    assume u: "updateRequested st hp (TxSha t) t hgt = (st1, hp1)"
      and so: "setOrigins True st1 hp1 (TxIn t) = Inr hp2"
      and r: "connectTxs hgt st1 hp2 ts = Inr (st', hp')"
    have "validRefs st1 hp1" using u Cons.prems(2) by (rule validRefs_updateRequested)
    then have "validRefs st1 hp2" using setOrigins_length[OF so] by (simp add: validRefs_def)
    with r show ?thesis by (rule Cons.IH)
  qed
qed

text \<open>Connecting never clears a flag.\<close>

lemma setOrigins_True_keeps:
  assumes "setOrigins True st hp ins = Inr hp'" and "a < length hp" and "k < length (hp ! a)"
    and "(hp ! a) ! k"
  shows "a < length hp' \<and> k < length (hp' ! a) \<and> (hp' ! a) ! k"
  using setOrigins_array[OF assms(1,2)] setOrigins_length[OF assms(1)] assms(2,3,4) by simp

lemma connectTxs_keeps_spent:
  "connectTxs hgt st hp ts = Inr (st', hp') \<Longrightarrow> a < length hp \<Longrightarrow> k < length (hp ! a) \<Longrightarrow>
   (hp ! a) ! k \<Longrightarrow> a < length hp' \<and> k < length (hp' ! a) \<and> (hp' ! a) ! k"
proof (induction ts arbitrary: st hp)
  case Nil then show ?case by simp
next
  case (Cons t ts)
  from Cons.prems(1) show ?case
  proof (elim connectTxs_ConsE)
    fix st1 hp1 hp2
    assume u: "updateRequested st hp (TxSha t) t hgt = (st1, hp1)"
      and so: "setOrigins True st1 hp1 (TxIn t) = Inr hp2"
      and r: "connectTxs hgt st1 hp2 ts = Inr (st', hp')"
    from updateRequested_heap[OF u] Cons.prems(2,3,4)
    have "a < length hp1" "k < length (hp1 ! a)" "(hp1 ! a) ! k" by auto
    from setOrigins_True_keeps[OF so this]
    have "a < length hp2" "k < length (hp2 ! a)" "(hp2 ! a) ! k" by auto
    with r show ?thesis by (rule Cons.IH)
  qed
qed

text \<open>The input \<open>(h, k)\<close> of a transaction leaves flag \<open>k\<close> of the entry of \<open>h\<close> set.\<close>

lemma setOrigins_sets:
  assumes "setOrigins v st hp ins = Inr hp'" and "(h, k) \<in> outpoints ins" and "st h = Some d"
  shows "\<exists>a. spent d = Some a \<and> a < length hp' \<and> k < length (hp' ! a) \<and> (hp' ! a) ! k = v"
proof -
  have "inRange st hp h k" using assms(1,2) setOrigins_completes[of v st hp ins] by blast
  then obtain a where a: "spent d = Some a" "a < length hp" "k < length (hp ! a)"
    using assms(3) by (auto simp: inRange_def split: option.splits)
  have "hits st (outpoints ins) a k" using assms(2,3) a(1) by (auto simp: hits_def)
  with setOrigins_array[OF assms(1) a(2)] a setOrigins_length[OF assms(1)]
  show ?thesis by simp
qed

text \<open>
  A transaction of the block that is in the store: after the block is connected its entry
  holds an array made for it, marked by its own inputs and those of the transactions after
  it, when no later transaction of the block has the same hash.
\<close>

lemma connectTxs_created:
  assumes c: "connectTxs hgt st hp (pre @ t # post) = Inr (st', hp')"
    and v: "validRefs st hp"
    and d0: "st (TxSha t) = Some d0"
    and last: "TxSha t \<notin> TxSha ` set post"
  shows "\<exists>a. st' (TxSha t) = Some \<lparr>tx = Some t, hash = hash d0, blockHeight = hgt, spent = Some a, err = None\<rparr> \<and>
             length hp \<le> a \<and> a < length hp' \<and> soleOwner st' (TxSha t) a \<and>
             length (hp' ! a) = length (TxOut t) \<and>
             (\<forall>k < length (TxOut t). (hp' ! a) ! k \<longleftrightarrow> (TxSha t, k) \<in> spentBy (t # post)) \<and>
             (\<forall>k. (TxSha t, k) \<in> spentBy (t # post) \<longrightarrow> k < length (TxOut t))"
proof -
  let ?h = "TxSha t"
  from c obtain sa ha where pre: "connectTxs hgt st hp pre = Inr (sa, ha)"
    and rest: "connectTxs hgt sa ha (t # post) = Inr (st', hp')"
    by (auto simp: connectTxs_append split: sum.splits)
  have va: "validRefs sa ha" using pre v by (rule connectTxs_validRefs)
  have la: "length hp \<le> length ha" using pre by (rule connectTxs_heap_length)
  have "?h \<in> dom sa" using connectTxs_dom[OF pre] d0 by auto
  then obtain da where da: "sa ?h = Some da" by auto
  from connectTxs_hash[OF pre da] d0 have hda: "hash da = hash d0" by simp
  from rest obtain s1 h1 h2 where u: "updateRequested sa ha ?h t hgt = (s1, h1)"
    and so: "setOrigins True s1 h1 (TxIn t) = Inr h2"
    and r: "connectTxs hgt s1 h2 post = Inr (st', hp')"
    by (elim connectTxs_ConsE)
  let ?a = "length ha"
  let ?d1 = "da\<lparr>tx := Some t, blockHeight := hgt, spent := Some ?a, err := None\<rparr>"
  from updateRequested_cases[OF u] da
  have s1: "s1 = sa(?h \<mapsto> ?d1)" and h1: "h1 = ha @ [replicate (length (TxOut t)) False]"
    by auto
  have s1h: "s1 ?h = Some ?d1" using s1 by simp
  have d1: "?d1 = \<lparr>tx = Some t, hash = hash d0, blockHeight = hgt, spent = Some ?a, err = None\<rparr>"
    using hda by simp
  have own1: "soleOwner s1 ?h ?a"
    using va unfolding soleOwner_def validRefs_def s1 by (fastforce split: if_splits)
  have a1: "?a < length h1" and arr1: "h1 ! ?a = replicate (length (TxOut t)) False"
    by (simp_all add: h1)
  have hit: "hits s1 ops ?a k \<longleftrightarrow> (?h, k) \<in> ops" for ops k
    using own1 s1h by (rule hits_soleOwner) simp
  from setOrigins_array[OF so a1]
  have l2: "length (h2 ! ?a) = length (TxOut t)"
    and b2: "\<And>k. k < length (TxOut t) \<Longrightarrow> (h2 ! ?a) ! k \<longleftrightarrow> (?h, k) \<in> outpoints (TxIn t)"
    by (auto simp: arr1 hit)
  have a2: "?a < length h2" using setOrigins_length[OF so] a1 by simp
  have rng: "k < length (TxOut t)" if "(?h, k) \<in> outpoints (TxIn t)" for k
  proof -
    have "inRange s1 h1 ?h k"
      using so that setOrigins_completes[of True s1 h1 "TxIn t"] by blast
    then show ?thesis using s1h arr1 by (simp add: inRange_def)
  qed
  have sp: "spent ?d1 = Some ?a" by simp
  note O = connectTxs_owned[OF r last s1h sp a2 own1]
  have fin: "st' ?h = Some ?d1" using connectTxs_other[OF r last] s1h by simp
  have "length ha \<le> length hp'"
    using connectTxs_heap_length[OF r] a2 by simp
  have a3: "?a < length hp'" using connectTxs_heap_length[OF r] a2 by simp
  show ?thesis
  proof (intro exI[of _ ?a] conjI allI impI)
    show "st' ?h = Some \<lparr>tx = Some t, hash = hash d0, blockHeight = hgt, spent = Some ?a, err = None\<rparr>"
      using fin d1 by simp
    show "length hp \<le> ?a" by (rule la)
    show "?a < length hp'" by (rule a3)
    show "soleOwner st' ?h ?a" using O by simp
    show "length (hp' ! ?a) = length (TxOut t)" using O l2 by simp
  next
    fix k assume k: "k < length (TxOut t)"
    then have "(hp' ! ?a) ! k \<longleftrightarrow> (h2 ! ?a) ! k \<or> (?h, k) \<in> spentBy post" using O l2 by simp
    then show "(hp' ! ?a) ! k \<longleftrightarrow> (?h, k) \<in> spentBy (t # post)" using b2[OF k] by auto
  next
    fix k assume "(?h, k) \<in> spentBy (t # post)"
    then show "k < length (TxOut t)" using rng O l2 by auto
  qed
qed

text \<open>An input of a transaction of the block, when no later transaction has the origin's hash.\<close>

lemma connectTxs_spends:
  assumes c: "connectTxs hgt st hp (pre @ t # post) = Inr (st', hp')"
    and inp: "(h, k) \<in> outpoints (TxIn t)"
    and dom: "h \<in> dom st"
    and last: "h \<notin> TxSha ` set post"
  shows "\<exists>d. st' h = Some d \<and> k < length (bitmap hp' d) \<and> bitmap hp' d ! k"
proof -
  from c obtain sa ha where pre: "connectTxs hgt st hp pre = Inr (sa, ha)"
    and rest: "connectTxs hgt sa ha (t # post) = Inr (st', hp')"
    by (auto simp: connectTxs_append split: sum.splits)
  from rest obtain s1 h1 h2 where u: "updateRequested sa ha (TxSha t) t hgt = (s1, h1)"
    and so: "setOrigins True s1 h1 (TxIn t) = Inr h2"
    and r: "connectTxs hgt s1 h2 post = Inr (st', hp')"
    by (elim connectTxs_ConsE)
  have "h \<in> dom s1" using connectTxs_dom[OF pre] updateRequested_dom[OF u] dom by simp
  then obtain d1 where d1: "s1 h = Some d1" by auto
  from setOrigins_sets[OF so inp d1] obtain a where
    a: "spent d1 = Some a" "a < length h2" "k < length (h2 ! a)" "(h2 ! a) ! k" by auto
  from connectTxs_keeps_spent[OF r a(2,3,4)]
  have "a < length hp'" "k < length (hp' ! a)" "(hp' ! a) ! k" by auto
  moreover have "st' h = Some d1" using connectTxs_other[OF r last] d1 by simp
  ultimately show ?thesis using a(1) by (auto simp: bitmap_Some)
qed

section \<open>The claims about the view mutators\<close>

text \<open>
  Claim C10. Neither mutator puts a new key into the store. After \<open>connectTransactions\<close>
  the keys are those before the call; after \<open>disconnectTransactions\<close> they are those
  before the call without the hashes of the block's transactions. An entry whose hash is
  neither that of a transaction of the block nor named as origin by one of its inputs is the
  same record afterwards, and its spent flags are the same when its bitmap is an array of its
  own.
\<close>

theorem view_mutators_frame:
  "(connectTransactions st hp block = Inr (e, st', hp') \<longrightarrow> dom st' = dom st) \<and>
   (disconnectTransactions st hp block = Inr (e, st', hp') \<longrightarrow>
      dom st' = dom st - TxSha ` set (Transactions block)) \<and>
   ((connectTransactions st hp block = Inr (e, st', hp') \<or>
     disconnectTransactions st hp block = Inr (e, st', hp')) \<and>
    h \<notin> TxSha ` set (Transactions block) \<and> h \<notin> fst ` spentBy (Transactions block) \<longrightarrow>
      st' h = st h \<and>
      (ownsBitmap st hp h \<longrightarrow> (\<forall>d. st h = Some d \<longrightarrow> bitmap hp' d = bitmap hp d)))"
proof (intro conjI impI)
  assume "connectTransactions st hp block = Inr (e, st', hp')"
  then have "connectTxs (BlockHeight block) st hp (Transactions block) = Inr (st', hp')"
    by (simp add: connectTransactions_Inr)
  then show "dom st' = dom st" by (rule connectTxs_dom)
next
  assume "disconnectTransactions st hp block = Inr (e, st', hp')"
  then have "disconnectTxs st hp (Transactions block) = Inr (st', hp')"
    by (simp add: disconnectTransactions_Inr)
  then show "dom st' = dom st - TxSha ` set (Transactions block)" by (rule disconnectTxs_dom)
next
  let ?ts = "Transactions block"
  assume A: "(connectTransactions st hp block = Inr (e, st', hp') \<or>
     disconnectTransactions st hp block = Inr (e, st', hp')) \<and>
    h \<notin> TxSha ` set ?ts \<and> h \<notin> fst ` spentBy ?ts"
  then have nb: "h \<notin> TxSha ` set ?ts" and no: "h \<notin> fst ` spentBy ?ts" by simp_all
  from A consider
      (c) "connectTxs (BlockHeight block) st hp ?ts = Inr (st', hp')"
    | (d) "disconnectTxs st hp ?ts = Inr (st', hp')"
    by (auto simp: connectTransactions_Inr disconnectTransactions_Inr)
  then show "st' h = st h"
  proof cases
    case c then show ?thesis using nb by (rule connectTxs_other)
  next
    case d then show ?thesis using nb by (simp add: disconnectTxs_entries)
  qed
  from A consider
      (c) "connectTxs (BlockHeight block) st hp ?ts = Inr (st', hp')"
    | (d) "disconnectTxs st hp ?ts = Inr (st', hp')"
    by (auto simp: connectTransactions_Inr disconnectTransactions_Inr)
  then have frame: "hp' ! a = hp ! a \<and> length hp \<le> length hp'"
    if "a < length hp" "\<And>k. \<not> hits st (spentBy ?ts) a k" for a
  proof cases
    case c
    then show ?thesis
      using connectTxs_unreferenced[OF c that] connectTxs_heap_length[OF c] by simp
  next
    case d
    then show ?thesis
      using disconnectTxs_unreferenced[OF d that] disconnectTxs_heap_length[OF d] by simp
  qed
  assume own: "ownsBitmap st hp h"
  show "\<forall>d. st h = Some d \<longrightarrow> bitmap hp' d = bitmap hp d"
  proof (intro allI impI)
    fix d assume d: "st h = Some d"
    show "bitmap hp' d = bitmap hp d"
    proof (cases "spent d")
      case None then show ?thesis by (simp add: bitmap_None)
    next
      case (Some a)
      with own d have a: "a < length hp" and so: "soleOwner st h a"
        by (auto simp: ownsBitmap_def)
      have "\<not> hits st (spentBy ?ts) a k" for k
        using hits_soleOwner[OF so d Some, of "spentBy ?ts" k] no by force
      from frame[OF a this] a Some show ?thesis by (simp add: bitmap_Some)
    qed
  qed
qed

theorem view_mutators_frame_witness:
  "connectTransactions storeW [[False, True]] blockW =
     Inr (None,
          storeW(0x71 \<mapsto> \<lparr>tx = Some tx71, hash = 0x71, blockHeight = 5, spent = Some 1, err = None\<rparr>),
          [[False, True], [True, False]]) \<and>
   dom (storeW(0x71 \<mapsto> \<lparr>tx = Some tx71, hash = 0x71, blockHeight = 5, spent = Some 1, err = None\<rparr>))
     = dom storeW \<and>
   bitmap [[False, True], [True, False]] entry58 = bitmap [[False, True]] entry58"
proof -
  let ?st' = "storeW(0x71 \<mapsto> \<lparr>tx = Some tx71, hash = 0x71, blockHeight = 5, spent = Some 1, err = None\<rparr>)"
  have run: "connectTransactions storeW [[False, True]] blockW =
     Inr (None, ?st', [[False, True], [True, False]])"
    by (simp add: connectTransactions_def blockTxSha_def updateRequested_def makeBools_def
        setIndex_def missingTxData_def)
  have own: "ownsBitmap storeW [[False, True]] 0x58"
    by (simp add: ownsBitmap_def soleOwner_def missingTxData_def)
  have out: "(0x58 :: ShaHash) \<notin> TxSha ` set (Transactions blockW)"
    "(0x58 :: ShaHash) \<notin> fst ` spentBy (Transactions blockW)"
    by simp_all
  from view_mutators_frame[of storeW "[[False, True]]" blockW None ?st'
      "[[False, True], [True, False]]" "0x58"] run own out
  show ?thesis by simp
qed

text \<open>
  Claim C2, as the code has it. Let \<open>t\<close> be a transaction of the block, \<open>pre\<close> the
  transactions before it and \<open>post\<close> those after it, and let the call complete. If the
  hash of \<open>t\<close> is a key of the store and no later transaction has the same hash, the entry
  holds \<open>t\<close>, the block's height, no error and a bitmap with one flag for each output of
  \<open>t\<close>, set exactly at the outputs that inputs of \<open>t\<close> or of later transactions refer
  to. For each input of \<open>t\<close> whose origin is a key of the store and not the hash of a
  later transaction, the origin's entry has the flag of the output referred to set. The
  updates are made in the order of the block, each transaction's entry before its inputs.
\<close>

theorem connectTransactions_effect:
  assumes "connectTransactions st hp block = Inr (e, st', hp')"
    and "validRefs st hp"
    and "Transactions block = pre @ t # post"
  shows "(TxSha t \<in> dom st \<and> TxSha t \<notin> TxSha ` set post \<longrightarrow>
            (\<exists>d. st' (TxSha t) = Some d \<and> tx d = Some t \<and> blockHeight d = BlockHeight block \<and>
                 err d = None \<and>
                 bitmap hp' d =
                   map (\<lambda>k. (TxSha t, k) \<in> spentBy (t # post)) [0 ..< length (TxOut t)])) \<and>
         (\<forall>(h, k) \<in> outpoints (TxIn t). h \<in> dom st \<and> h \<notin> TxSha ` set post \<longrightarrow>
            (\<exists>d. st' h = Some d \<and> k < length (bitmap hp' d) \<and> bitmap hp' d ! k))"
proof (intro conjI impI ballI)
  from assms(1,3)
  have c: "connectTxs (BlockHeight block) st hp (pre @ t # post) = Inr (st', hp')"
    by (simp add: connectTransactions_Inr)
  {
    assume "TxSha t \<in> dom st \<and> TxSha t \<notin> TxSha ` set post"
    then obtain d0 where d0: "st (TxSha t) = Some d0" and last: "TxSha t \<notin> TxSha ` set post"
      by auto
    from connectTxs_created[OF c assms(2) d0 last] obtain a where
      e: "st' (TxSha t) = Some \<lparr>tx = Some t, hash = hash d0, blockHeight = BlockHeight block,
                                spent = Some a, err = None\<rparr>"
      and a: "a < length hp'" and len: "length (hp' ! a) = length (TxOut t)"
      and bits: "\<forall>k < length (TxOut t). (hp' ! a) ! k \<longleftrightarrow> (TxSha t, k) \<in> spentBy (t # post)"
      by blast
    let ?d = "\<lparr>tx = Some t, hash = hash d0, blockHeight = BlockHeight block,
               spent = Some a, err = None\<rparr>"
    have "bitmap hp' ?d = hp' ! a" using a by (simp add: bitmap_Some)
    moreover have "hp' ! a = map (\<lambda>k. (TxSha t, k) \<in> spentBy (t # post)) [0 ..< length (TxOut t)]"
      using len bits by (intro nth_equalityI) simp_all
    ultimately show "\<exists>d. st' (TxSha t) = Some d \<and> tx d = Some t \<and>
        blockHeight d = BlockHeight block \<and> err d = None \<and>
        bitmap hp' d = map (\<lambda>k. (TxSha t, k) \<in> spentBy (t # post)) [0 ..< length (TxOut t)]"
      using e by simp
  }
  {
    fix x assume x: "x \<in> outpoints (TxIn t)"
    show "case x of (h, k) \<Rightarrow> h \<in> dom st \<and> h \<notin> TxSha ` set post \<longrightarrow>
            (\<exists>d. st' h = Some d \<and> k < length (bitmap hp' d) \<and> bitmap hp' d ! k)"
    proof (cases x)
      case (Pair h k)
      then show ?thesis using connectTxs_spends[OF c, of h k] x by auto
    qed
  }
qed

theorem connectTransactions_effect_witness:
  "connectTransactions [0x71 \<mapsto> missingTxData 0x71] [] blockW =
     Inr (None, [0x71 \<mapsto> entry71], [[True, False]]) \<and>
   (\<exists>d. [0x71 \<mapsto> entry71] 0x71 = Some d \<and> tx d = Some tx71 \<and> blockHeight d = 5 \<and> err d = None \<and>
        bitmap [[True, False]] d = [True, False])"
proof -
  have run: "connectTransactions [0x71 \<mapsto> missingTxData 0x71] [] blockW =
     Inr (None, [0x71 \<mapsto> entry71], [[True, False]])"
    by (simp add: connectTransactions_def blockTxSha_def updateRequested_def makeBools_def
        setIndex_def missingTxData_def)
  have v: "validRefs [0x71 \<mapsto> missingTxData 0x71] []"
    by (simp add: validRefs_def missingTxData_def)
  have split: "Transactions blockW = [coinbaseW] @ tx71 # [tx72]" by simp
  have m: "map (\<lambda>k. (TxSha tx71, k) \<in> spentBy [tx71, tx72]) [0 ..< length (TxOut tx71)] = [True, False]"
    by (simp add: upt_rec)
  from connectTransactions_effect[OF run v split] m
  show ?thesis using run by simp
qed

text \<open>
  The claim as worded fails where a block spends an output of one of its own transactions:
  the bitmap of \<open>tx71\<close> is not all false after the call.
\<close>

theorem connectTransactions_effect_counterexample:
  "connectTransactions [0x71 \<mapsto> missingTxData 0x71] [] blockW =
     Inr (None, [0x71 \<mapsto> entry71], [[True, False]]) \<and>
   bitmap [[True, False]] entry71 = [True, False] \<and>
   bitmap [[True, False]] entry71 \<noteq> replicate (length (TxOut tx71)) False"
  by (simp add: connectTransactions_def blockTxSha_def updateRequested_def makeBools_def
      setIndex_def missingTxData_def bitmap_def elems_def)

text \<open>
  Claim C3, as the code has it. Let every bitmap of the store be an array of its own, and
  let every output that an input of the block refers to, in an entry that is not of a
  transaction of the block, be unspent. If connecting the block and then disconnecting it
  both complete, the store is the one before the two calls without the entries of the
  block's transactions: the same keys but those, the same records, the same flags.
\<close>

theorem connect_then_disconnect:
  assumes c: "connectTransactions st hp block = Inr (e1, st1, hp1)"
    and d: "disconnectTransactions st1 hp1 block = Inr (e2, st2, hp2)"
    and own: "\<forall>h. ownsBitmap st hp h"
    and unspent: "\<forall>(h, k) \<in> spentBy (Transactions block). \<forall>d. st h = Some d \<and>
                    h \<notin> TxSha ` set (Transactions block) \<longrightarrow> \<not> bitmap hp d ! k"
  shows "dom st2 = dom st - TxSha ` set (Transactions block) \<and>
         (\<forall>h d. st2 h = Some d \<longrightarrow> st h = Some d \<and> bitmap hp2 d = bitmap hp d)"
proof (intro conjI allI impI)
  let ?ts = "Transactions block"
  from c have c': "connectTxs (BlockHeight block) st hp ?ts = Inr (st1, hp1)"
    by (simp add: connectTransactions_Inr)
  from d have d': "disconnectTxs st1 hp1 ?ts = Inr (st2, hp2)"
    by (simp add: disconnectTransactions_Inr)
  show "dom st2 = dom st - TxSha ` set ?ts"
    using disconnectTxs_dom[OF d'] connectTxs_dom[OF c'] by simp
  fix h d0 assume s2: "st2 h = Some d0"
  then have nb: "h \<notin> TxSha ` set ?ts" and s1: "st1 h = Some d0"
    using disconnectTxs_entries[OF d', of h] by (auto split: if_splits)
  have s0: "st h = Some d0" using connectTxs_other[OF c' nb] s1 by simp
  then show "st h = Some d0" .
  show "bitmap hp2 d0 = bitmap hp d0"
  proof (cases "spent d0")
    case None then show ?thesis by (simp add: bitmap_None)
  next
    case (Some a)
    with own s0 have a: "a < length hp" and so: "soleOwner st h a"
      by (auto simp: ownsBitmap_def)
    from connectTxs_owned[OF c' nb s0 Some a so]
    have so1: "soleOwner st1 h a" and l1: "length (hp1 ! a) = length (hp ! a)"
      and b1: "\<forall>k < length (hp ! a). (hp1 ! a) ! k \<longleftrightarrow> (hp ! a) ! k \<or> (h, k) \<in> spentBy ?ts"
      by auto
    have a1: "a < length hp1" using connectTxs_heap_length[OF c'] a by simp
    from disconnectTxs_owned[OF d' nb s1 Some a1 so1]
    have l2: "length (hp2 ! a) = length (hp1 ! a)"
      and b2: "\<forall>k < length (hp1 ! a). (hp2 ! a) ! k \<longleftrightarrow> (hp1 ! a) ! k \<and> (h, k) \<notin> spentBy ?ts"
      by auto
    have a2: "a < length hp2" using disconnectTxs_heap_length[OF d'] a1 by simp
    have free: "\<not> (hp ! a) ! k" if "(h, k) \<in> spentBy ?ts" for k
      using unspent that s0 nb a Some by (auto simp: bitmap_Some)
    have "hp2 ! a = hp ! a"
    proof (rule nth_equalityI)
      show "length (hp2 ! a) = length (hp ! a)" using l1 l2 by simp
    next
      fix k assume "k < length (hp2 ! a)"
      then have k: "k < length (hp ! a)" using l1 l2 by simp
      then show "(hp2 ! a) ! k = (hp ! a) ! k"
        using b1 b2 l1 free[of k] by auto
    qed
    then show ?thesis using a a2 Some by (simp add: bitmap_Some)
  qed
qed

theorem connect_then_disconnect_witness:
  "connectTransactions storeW [[False, True]] blockW =
     Inr (None, storeW(0x71 \<mapsto> entry71\<lparr>spent := Some 1\<rparr>), [[False, True], [True, False]]) \<and>
   disconnectTransactions (storeW(0x71 \<mapsto> entry71\<lparr>spent := Some 1\<rparr>)) [[False, True], [True, False]] blockW =
     Inr (None, [0x58 \<mapsto> entry58], [[False, True], [True, False]]) \<and>
   dom [0x58 \<mapsto> entry58] = dom storeW - TxSha ` set (Transactions blockW) \<and>
   bitmap [[False, True], [True, False]] entry58 = bitmap [[False, True]] entry58"
proof -
  let ?st1 = "storeW(0x71 \<mapsto> entry71\<lparr>spent := Some 1\<rparr>)"
  have c: "connectTransactions storeW [[False, True]] blockW =
     Inr (None, ?st1, [[False, True], [True, False]])"
    by (simp add: connectTransactions_def blockTxSha_def updateRequested_def makeBools_def
        setIndex_def missingTxData_def)
  have d: "disconnectTransactions ?st1 [[False, True], [True, False]] blockW =
     Inr (None, [0x58 \<mapsto> entry58], [[False, True], [True, False]])"
    by (simp add: disconnectTransactions_def blockTxSha_def setIndex_def fun_eq_iff)
  have own: "\<forall>h. ownsBitmap storeW [[False, True]] h"
    by (simp add: ownsBitmap_def soleOwner_def missingTxData_def)
  have unspent: "\<forall>(h, k) \<in> spentBy (Transactions blockW). \<forall>d. storeW h = Some d \<and>
                    h \<notin> TxSha ` set (Transactions blockW) \<longrightarrow> \<not> bitmap [[False, True]] d ! k"
    by simp
  from connect_then_disconnect[OF c d own unspent] c d
  show ?thesis by simp
qed

text \<open>
  The claim as worded fails where an output that the block spends is already marked spent
  before the block is connected: disconnecting clears the flag.
\<close>

theorem connect_then_disconnect_counterexample:
  "connectTransactions [0x58 \<mapsto> entry58] [[True, False]] blockC =
     Inr (None, [0x58 \<mapsto> entry58], [[True, False]]) \<and>
   disconnectTransactions [0x58 \<mapsto> entry58] [[True, False]] blockC =
     Inr (None, [0x58 \<mapsto> entry58], [[False, False]]) \<and>
   bitmap [[True, False]] entry58 = [True, False] \<and>
   bitmap [[False, False]] entry58 = [False, False]"
  by (simp add: connectTransactions_def disconnectTransactions_def blockTxSha_def
      updateRequested_def setIndex_def bitmap_def elems_def fun_eq_iff)

lemma lastTx_single: "lastTx h [t] = (if TxSha t = h then Some t else None)"
  by (simp add: lastTx_def)

lemma find_snoc:
  "find P (xs @ [y]) = (case find P xs of Some x \<Rightarrow> Some x | None \<Rightarrow> if P y then Some y else None)"
  by (induction xs) simp_all

lemma lastTx_Cons:
  "lastTx h (t0 # xs) =
     (case lastTx h xs of Some u \<Rightarrow> Some u | None \<Rightarrow> if TxSha t0 = h then Some t0 else None)"
  by (simp add: lastTx_def find_snoc)

lemma connectInRange_Nil [simp]: "connectInRange st hp []"
  by (simp add: connectInRange_def)

lemma disconnectInRange_Nil [simp]: "disconnectInRange st hp []"
  by (simp add: disconnectInRange_def)

lemma connectInRange_Cons:
  "connectInRange st hp (t0 # ts) \<longleftrightarrow>
     (\<forall>(h, k) \<in> outpoints (TxIn t0).
        if TxSha t0 = h then h \<in> dom st \<longrightarrow> k < length (TxOut t0) else inRange st hp h k) \<and>
     (\<forall>pre t post. ts = pre @ t # post \<longrightarrow>
        (\<forall>(h, k) \<in> outpoints (TxIn t).
           case lastTx h (pre @ [t]) of
             None \<Rightarrow> if TxSha t0 = h then h \<in> dom st \<longrightarrow> k < length (TxOut t0) else inRange st hp h k
           | Some u \<Rightarrow> h \<in> dom st \<longrightarrow> k < length (TxOut u)))"
  (is "?L \<longleftrightarrow> ?A \<and> ?B")
proof
  assume L: ?L
  have "\<forall>x \<in> outpoints (TxIn t0). case x of (h, k) \<Rightarrow>
          (case lastTx h [t0] of
             None \<Rightarrow> inRange st hp h k
           | Some u \<Rightarrow> h \<in> dom st \<longrightarrow> k < length (TxOut u))"
    using L[unfolded connectInRange_def, THEN spec, of "[]", THEN spec, of t0, THEN spec, of ts]
    by simp
  then have ?A by (fastforce simp: lastTx_single case_prod_beta split: if_splits)
  moreover have ?B
  proof (intro allI impI ballI)
    fix pre t post x
    assume ts: "ts = pre @ t # post" and x: "x \<in> outpoints (TxIn t)"
    obtain h k where hk: "x = (h, k)" by (cases x)
    have "t0 # ts = (t0 # pre) @ t # post" using ts by simp
    from L[unfolded connectInRange_def, rule_format, OF this x]
    show "case x of (h, k) \<Rightarrow>
            case lastTx h (pre @ [t]) of
              None \<Rightarrow> if TxSha t0 = h then h \<in> dom st \<longrightarrow> k < length (TxOut t0) else inRange st hp h k
            | Some u \<Rightarrow> h \<in> dom st \<longrightarrow> k < length (TxOut u)"
      unfolding hk by (simp add: lastTx_Cons split: option.splits if_splits)
  qed
  ultimately show "?A \<and> ?B" ..
next
  assume AB: "?A \<and> ?B"
  show ?L
    unfolding connectInRange_def
  proof (intro allI impI ballI)
    fix pre t post x
    assume eq: "t0 # ts = pre @ t # post" and x: "x \<in> outpoints (TxIn t)"
    obtain h k where hk: "x = (h, k)" by (cases x)
    show "case x of (h, k) \<Rightarrow>
            case lastTx h (pre @ [t]) of
              None \<Rightarrow> inRange st hp h k
            | Some u \<Rightarrow> h \<in> dom st \<longrightarrow> k < length (TxOut u)"
    proof (cases pre)
      case Nil
      with eq have "t = t0" by simp
      with AB x hk Nil show ?thesis
        by (auto simp: lastTx_single split: if_splits)
    next
      case (Cons p pre')
      with eq have p: "p = t0" and ts: "ts = pre' @ t # post" by simp_all
      from AB ts x have "case x of (h, k) \<Rightarrow>
            case lastTx h (pre' @ [t]) of
              None \<Rightarrow> if TxSha t0 = h then h \<in> dom st \<longrightarrow> k < length (TxOut t0) else inRange st hp h k
            | Some u \<Rightarrow> h \<in> dom st \<longrightarrow> k < length (TxOut u)"
        by blast
      then show ?thesis
        unfolding hk Cons p by (simp add: lastTx_Cons split: option.splits if_splits)
    qed
  qed
qed

lemma disconnectInRange_Cons:
  "disconnectInRange st hp (t0 # ts) \<longleftrightarrow>
     (\<forall>(h, k) \<in> outpoints (TxIn t0). h \<noteq> TxSha t0 \<longrightarrow> inRange st hp h k) \<and>
     (\<forall>pre t post. ts = pre @ t # post \<longrightarrow>
        (\<forall>(h, k) \<in> outpoints (TxIn t).
           h \<notin> TxSha ` set (pre @ [t]) \<longrightarrow> h \<noteq> TxSha t0 \<longrightarrow> inRange st hp h k))"
  (is "?L \<longleftrightarrow> ?A \<and> ?B")
proof
  assume L: ?L
  have "\<forall>x \<in> outpoints (TxIn t0). case x of (h, k) \<Rightarrow>
          h \<notin> TxSha ` set [t0] \<longrightarrow> inRange st hp h k"
    using L[unfolded disconnectInRange_def, THEN spec, of "[]", THEN spec, of t0, THEN spec, of ts]
    by simp
  then have ?A by auto
  moreover have ?B
  proof (intro allI impI ballI)
    fix pre t post x
    assume ts: "ts = pre @ t # post" and x: "x \<in> outpoints (TxIn t)"
    obtain h k where hk: "x = (h, k)" by (cases x)
    have "t0 # ts = (t0 # pre) @ t # post" using ts by simp
    from L[unfolded disconnectInRange_def, rule_format, OF this x]
    show "case x of (h, k) \<Rightarrow>
            h \<notin> TxSha ` set (pre @ [t]) \<longrightarrow> h \<noteq> TxSha t0 \<longrightarrow> inRange st hp h k"
      unfolding hk by auto
  qed
  ultimately show "?A \<and> ?B" ..
next
  assume AB: "?A \<and> ?B"
  show ?L
    unfolding disconnectInRange_def
  proof (intro allI impI ballI)
    fix pre t post x
    assume eq: "t0 # ts = pre @ t # post" and x: "x \<in> outpoints (TxIn t)"
    obtain h k where hk: "x = (h, k)" by (cases x)
    show "case x of (h, k) \<Rightarrow> h \<notin> TxSha ` set (pre @ [t]) \<longrightarrow> inRange st hp h k"
    proof (cases pre)
      case Nil
      with eq have "t = t0" by simp
      with AB x hk Nil show ?thesis by auto
    next
      case (Cons p pre')
      with eq have p: "p = t0" and ts: "ts = pre' @ t # post" by simp_all
      from AB ts x have "case x of (h, k) \<Rightarrow>
            h \<notin> TxSha ` set (pre' @ [t]) \<longrightarrow> h \<noteq> TxSha t0 \<longrightarrow> inRange st hp h k"
        by blast
      then show ?thesis unfolding hk Cons p by auto
    qed
  qed
qed

text \<open>What the bitmap of an entry allows after lines 38 to 43.\<close>

lemma inRange_updateRequested:
  assumes u: "updateRequested st hp (TxSha t0) t0 hgt = (st1, hp1)"
    and v: "validRefs st hp"
    and l: "length hp2 = length hp1" "\<And>a. a < length hp1 \<Longrightarrow> length (hp2 ! a) = length (hp1 ! a)"
  shows "inRange st1 hp2 h k \<longleftrightarrow>
           (if TxSha t0 = h then h \<in> dom st \<longrightarrow> k < length (TxOut t0) else inRange st hp h k)"
proof -
  have "inRange st1 hp2 h k \<longleftrightarrow> inRange st1 hp1 h k" using l by (rule inRange_cong)
  also have "\<dots> \<longleftrightarrow> (if TxSha t0 = h then h \<in> dom st \<longrightarrow> k < length (TxOut t0) else inRange st hp h k)"
    using updateRequested_cases[OF u]
  proof
    assume "st (TxSha t0) = None \<and> st1 = st \<and> hp1 = hp"
    then show ?thesis by (auto simp: inRange_def)
  next
    assume "\<exists>d. st (TxSha t0) = Some d \<and>
               st1 = st(TxSha t0 \<mapsto> d\<lparr>tx := Some t0, blockHeight := hgt, spent := Some (length hp), err := None\<rparr>) \<and>
               hp1 = hp @ [replicate (length (TxOut t0)) False]"
    then obtain d where d: "st (TxSha t0) = Some d"
      and s1: "st1 = st(TxSha t0 \<mapsto> d\<lparr>tx := Some t0, blockHeight := hgt, spent := Some (length hp), err := None\<rparr>)"
      and h1: "hp1 = hp @ [replicate (length (TxOut t0)) False]" by blast
    show ?thesis
    proof (cases "TxSha t0 = h")
      case True
      then show ?thesis using d by (auto simp: inRange_def s1 h1)
    next
      case False
      then have "inRange st1 hp1 h k = inRange st hp1 h k" by (simp add: inRange_def s1)
      also have "\<dots> = inRange st hp h k"
      proof (cases "st h")
        case None then show ?thesis by (simp add: inRange_def)
      next
        case (Some e)
        show ?thesis
        proof (cases "spent e")
          case None with Some show ?thesis by (simp add: inRange_def)
        next
          case (Some a)
          with \<open>st h = Some e\<close> v have "a < length hp" by (auto simp: validRefs_def)
          with Some \<open>st h = Some e\<close> show ?thesis by (simp add: inRange_def h1 nth_append)
        qed
      qed
      finally show ?thesis using False by simp
    qed
  qed
  finally show ?thesis .
qed

lemma connectTxs_completes:
  "validRefs st hp \<Longrightarrow> (\<exists>r. connectTxs hgt st hp ts = Inr r) \<longleftrightarrow> connectInRange st hp ts"
proof (induction ts arbitrary: st hp)
  case Nil then show ?case by simp
next
  case (Cons t0 ts)
  obtain st1 hp1 where u: "updateRequested st hp (TxSha t0) t0 hgt = (st1, hp1)"
    by (cases "updateRequested st hp (TxSha t0) t0 hgt")
  have v1: "validRefs st1 hp1" using u Cons.prems by (rule validRefs_updateRequested)
  have dom1: "dom st1 = dom st" using u by (rule updateRequested_dom)
  let ?Q = "\<lambda>h k. if TxSha t0 = h then h \<in> dom st \<longrightarrow> k < length (TxOut t0) else inRange st hp h k"
  have Q1: "inRange st1 hp1 h k \<longleftrightarrow> ?Q h k" for h k
    by (rule inRange_updateRequested[OF u Cons.prems]) simp_all
  have first: "(\<exists>hp2. setOrigins True st1 hp1 (TxIn t0) = Inr hp2) \<longleftrightarrow>
                 (\<forall>(h, k) \<in> outpoints (TxIn t0). ?Q h k)"
    unfolding setOrigins_completes by (simp add: Q1 case_prod_beta)
  have rest: "(\<exists>r. connectTxs hgt st1 hp2 ts = Inr r) \<longleftrightarrow>
     (\<forall>pre t post. ts = pre @ t # post \<longrightarrow>
        (\<forall>(h, k) \<in> outpoints (TxIn t).
           case lastTx h (pre @ [t]) of
             None \<Rightarrow> ?Q h k
           | Some u \<Rightarrow> h \<in> dom st \<longrightarrow> k < length (TxOut u)))"
    if so: "setOrigins True st1 hp1 (TxIn t0) = Inr hp2" for hp2
  proof -
    have l: "length hp2 = length hp1" "\<And>a. a < length hp1 \<Longrightarrow> length (hp2 ! a) = length (hp1 ! a)"
      using setOrigins_length[OF so] setOrigins_array[OF so] by simp_all
    have v2: "validRefs st1 hp2" using v1 l(1) by (simp add: validRefs_def)
    have Q2: "inRange st1 hp2 h k \<longleftrightarrow> ?Q h k" for h k
      by (rule inRange_updateRequested[OF u Cons.prems l])
    show ?thesis
      unfolding Cons.IH[OF v2] connectInRange_def
      by (simp add: Q2 dom1 case_prod_beta cong: option.case_cong)
  qed
  have "(\<exists>r. connectTxs hgt st hp (t0 # ts) = Inr r) \<longleftrightarrow>
          (\<exists>hp2. setOrigins True st1 hp1 (TxIn t0) = Inr hp2 \<and> (\<exists>r. connectTxs hgt st1 hp2 ts = Inr r))"
    using u by (auto split: sum.splits)
  also have "\<dots> \<longleftrightarrow> connectInRange st hp (t0 # ts)"
    unfolding connectInRange_Cons
  proof (intro iffI conjI)
    assume "\<exists>hp2. setOrigins True st1 hp1 (TxIn t0) = Inr hp2 \<and> (\<exists>r. connectTxs hgt st1 hp2 ts = Inr r)"
    then obtain hp2 where so: "setOrigins True st1 hp1 (TxIn t0) = Inr hp2"
      and r: "\<exists>r. connectTxs hgt st1 hp2 ts = Inr r" by blast
    from so first show "\<forall>(h, k) \<in> outpoints (TxIn t0). ?Q h k" by blast
    from r rest[OF so] show "\<forall>pre t post. ts = pre @ t # post \<longrightarrow>
        (\<forall>(h, k) \<in> outpoints (TxIn t).
           case lastTx h (pre @ [t]) of
             None \<Rightarrow> ?Q h k
           | Some u \<Rightarrow> h \<in> dom st \<longrightarrow> k < length (TxOut u))" by simp
  next
    assume AB: "(\<forall>(h, k) \<in> outpoints (TxIn t0). ?Q h k) \<and>
      (\<forall>pre t post. ts = pre @ t # post \<longrightarrow>
        (\<forall>(h, k) \<in> outpoints (TxIn t).
           case lastTx h (pre @ [t]) of
             None \<Rightarrow> ?Q h k
           | Some u \<Rightarrow> h \<in> dom st \<longrightarrow> k < length (TxOut u)))"
    with first obtain hp2 where so: "setOrigins True st1 hp1 (TxIn t0) = Inr hp2" by blast
    with AB rest[OF so]
    show "\<exists>hp2. setOrigins True st1 hp1 (TxIn t0) = Inr hp2 \<and> (\<exists>r. connectTxs hgt st1 hp2 ts = Inr r)"
      by blast
  qed
  finally show ?case .
qed

lemma inRange_delete:
  assumes "length hp2 = length hp" "\<And>a. a < length hp \<Longrightarrow> length (hp2 ! a) = length (hp ! a)"
  shows "inRange (st(h0 := None)) hp2 h k \<longleftrightarrow> (h \<noteq> h0 \<longrightarrow> inRange st hp h k)"
proof -
  have "inRange (st(h0 := None)) hp2 h k \<longleftrightarrow> inRange (st(h0 := None)) hp h k"
    using assms by (rule inRange_cong)
  then show ?thesis by (auto simp: inRange_def)
qed

lemma disconnectTxs_completes:
  "(\<exists>r. disconnectTxs st hp ts = Inr r) \<longleftrightarrow> disconnectInRange st hp ts"
proof (induction ts arbitrary: st hp)
  case Nil then show ?case by simp
next
  case (Cons t0 ts)
  let ?st1 = "st(TxSha t0 := None)"
  have D1: "inRange ?st1 hp h k \<longleftrightarrow> (h \<noteq> TxSha t0 \<longrightarrow> inRange st hp h k)" for h k
    by (rule inRange_delete) simp_all
  have first: "(\<exists>hp1. setOrigins False ?st1 hp (TxIn t0) = Inr hp1) \<longleftrightarrow>
                 (\<forall>(h, k) \<in> outpoints (TxIn t0). h \<noteq> TxSha t0 \<longrightarrow> inRange st hp h k)"
    unfolding setOrigins_completes by (simp add: D1 case_prod_beta)
  have rest: "(\<exists>r. disconnectTxs ?st1 hp1 ts = Inr r) \<longleftrightarrow>
     (\<forall>pre t post. ts = pre @ t # post \<longrightarrow>
        (\<forall>(h, k) \<in> outpoints (TxIn t).
           h \<notin> TxSha ` set (pre @ [t]) \<longrightarrow> h \<noteq> TxSha t0 \<longrightarrow> inRange st hp h k))"
    if so: "setOrigins False ?st1 hp (TxIn t0) = Inr hp1" for hp1
  proof -
    have l: "length hp1 = length hp" "\<And>a. a < length hp \<Longrightarrow> length (hp1 ! a) = length (hp ! a)"
      using setOrigins_length[OF so] setOrigins_array[OF so] by simp_all
    have D2: "inRange ?st1 hp1 h k \<longleftrightarrow> (h \<noteq> TxSha t0 \<longrightarrow> inRange st hp h k)" for h k
      by (rule inRange_delete[OF l])
    show ?thesis
      unfolding Cons.IH disconnectInRange_def
      by (simp add: D2 case_prod_beta)
  qed
  have "(\<exists>r. disconnectTxs st hp (t0 # ts) = Inr r) \<longleftrightarrow>
          (\<exists>hp1. setOrigins False ?st1 hp (TxIn t0) = Inr hp1 \<and> (\<exists>r. disconnectTxs ?st1 hp1 ts = Inr r))"
    by (auto split: sum.splits)
  also have "\<dots> \<longleftrightarrow> disconnectInRange st hp (t0 # ts)"
    unfolding disconnectInRange_Cons
  proof (intro iffI conjI)
    assume "\<exists>hp1. setOrigins False ?st1 hp (TxIn t0) = Inr hp1 \<and> (\<exists>r. disconnectTxs ?st1 hp1 ts = Inr r)"
    then obtain hp1 where so: "setOrigins False ?st1 hp (TxIn t0) = Inr hp1"
      and r: "\<exists>r. disconnectTxs ?st1 hp1 ts = Inr r" by blast
    from so first show "\<forall>(h, k) \<in> outpoints (TxIn t0). h \<noteq> TxSha t0 \<longrightarrow> inRange st hp h k"
      by blast
    from r rest[OF so] show "\<forall>pre t post. ts = pre @ t # post \<longrightarrow>
        (\<forall>(h, k) \<in> outpoints (TxIn t).
           h \<notin> TxSha ` set (pre @ [t]) \<longrightarrow> h \<noteq> TxSha t0 \<longrightarrow> inRange st hp h k)" by simp
  next
    assume AB: "(\<forall>(h, k) \<in> outpoints (TxIn t0). h \<noteq> TxSha t0 \<longrightarrow> inRange st hp h k) \<and>
      (\<forall>pre t post. ts = pre @ t # post \<longrightarrow>
        (\<forall>(h, k) \<in> outpoints (TxIn t).
           h \<notin> TxSha ` set (pre @ [t]) \<longrightarrow> h \<noteq> TxSha t0 \<longrightarrow> inRange st hp h k))"
    with first obtain hp1 where so: "setOrigins False ?st1 hp (TxIn t0) = Inr hp1" by blast
    with AB rest[OF so]
    show "\<exists>hp1. setOrigins False ?st1 hp (TxIn t0) = Inr hp1 \<and> (\<exists>r. disconnectTxs ?st1 hp1 ts = Inr r)"
      by blast
  qed
  finally show ?case .
qed

lemma setOrigins_panic: "setOrigins v st hp ins = Inl p \<Longrightarrow> p = IndexOutOfRange"
  by (induction ins arbitrary: hp)
     (auto simp: Let_def setIndex_def split: option.splits sum.splits if_splits)

lemma connectTxs_panic: "connectTxs hgt st hp ts = Inl p \<Longrightarrow> p = IndexOutOfRange"
  by (induction ts arbitrary: st hp)
     (auto simp: Let_def split: prod.splits sum.splits dest: setOrigins_panic)

lemma disconnectTxs_panic: "disconnectTxs st hp ts = Inl p \<Longrightarrow> p = IndexOutOfRange"
  by (induction ts arbitrary: st hp) (auto split: sum.splits dest: setOrigins_panic)

lemma connectTransactions_panic:
  "connectTransactions st hp block = Inl p \<Longrightarrow> p = IndexOutOfRange"
  by (auto simp: connectTransactions_eq split: sum.splits dest: connectTxs_panic)

lemma disconnectTransactions_panic:
  "disconnectTransactions st hp block = Inl p \<Longrightarrow> p = IndexOutOfRange"
  by (auto simp: disconnectTransactions_eq split: sum.splits dest: disconnectTxs_panic)

text \<open>
  Claim C9, as the code has it. Neither mutator checks the index it assigns at, and a call
  that does not complete panics with an index out of range. A call completes exactly when
  every assignment is in range of the bitmap the entry has when the assignment is made
  (\<open>connectInRange\<close>, \<open>disconnectInRange\<close>): the bitmap passed in for an origin that is
  not the hash of the spending transaction or of one before it in the block; for such a
  hash, when connecting, the bitmap made for that transaction, and when disconnecting no
  bitmap at all, the entry being deleted.
\<close>

theorem mutators_complete_iff:
  assumes "validRefs st hp"
  shows "((\<exists>r. connectTransactions st hp block = Inr r) \<longleftrightarrow>
            connectInRange st hp (Transactions block)) \<and>
         ((\<exists>r. disconnectTransactions st hp block = Inr r) \<longleftrightarrow>
            disconnectInRange st hp (Transactions block)) \<and>
         (\<forall>p. connectTransactions st hp block = Inl p \<or>
              disconnectTransactions st hp block = Inl p \<longrightarrow> p = IndexOutOfRange)"
proof (intro conjI allI impI)
  have "(\<exists>r. connectTransactions st hp block = Inr r) \<longleftrightarrow>
          (\<exists>r. connectTxs (BlockHeight block) st hp (Transactions block) = Inr r)"
    by (auto simp: connectTransactions_eq split: sum.splits)
  then show "(\<exists>r. connectTransactions st hp block = Inr r) \<longleftrightarrow>
               connectInRange st hp (Transactions block)"
    using connectTxs_completes[OF assms] by simp
  have "(\<exists>r. disconnectTransactions st hp block = Inr r) \<longleftrightarrow>
          (\<exists>r. disconnectTxs st hp (Transactions block) = Inr r)"
    by (auto simp: disconnectTransactions_eq split: sum.splits)
  then show "(\<exists>r. disconnectTransactions st hp block = Inr r) \<longleftrightarrow>
               disconnectInRange st hp (Transactions block)"
    using disconnectTxs_completes by simp
next
  fix p
  assume "connectTransactions st hp block = Inl p \<or> disconnectTransactions st hp block = Inl p"
  then show "p = IndexOutOfRange"
    using connectTransactions_panic disconnectTransactions_panic by blast
qed

theorem mutators_complete_iff_witness:
  "connectTransactions [0x71 \<mapsto> missingTxData 0x71] [] blockW =
     Inr (None, [0x71 \<mapsto> entry71], [[True, False]]) \<and>
   connectInRange [0x71 \<mapsto> missingTxData 0x71] [] (Transactions blockW) \<and>
   disconnectTransactions [0x71 \<mapsto> missingTxData 0x71] [] blockD = Inl IndexOutOfRange \<and>
   \<not> disconnectInRange [0x71 \<mapsto> missingTxData 0x71] [] (Transactions blockD)"
proof -
  have run: "connectTransactions [0x71 \<mapsto> missingTxData 0x71] [] blockW =
     Inr (None, [0x71 \<mapsto> entry71], [[True, False]])"
    by (simp add: connectTransactions_def blockTxSha_def updateRequested_def makeBools_def
        setIndex_def missingTxData_def)
  have stop: "disconnectTransactions [0x71 \<mapsto> missingTxData 0x71] [] blockD = Inl IndexOutOfRange"
    by (simp add: disconnectTransactions_def blockTxSha_def setIndex_def missingTxData_def)
  have v: "validRefs [0x71 \<mapsto> missingTxData 0x71] []"
    by (simp add: validRefs_def missingTxData_def)
  from mutators_complete_iff[OF v, of blockW] run
  have 1: "connectInRange [0x71 \<mapsto> missingTxData 0x71] [] (Transactions blockW)" by simp
  from mutators_complete_iff[OF v, of blockD] stop
  have 2: "\<not> disconnectInRange [0x71 \<mapsto> missingTxData 0x71] [] (Transactions blockD)" by simp
  from run stop 1 2 show ?thesis by simp
qed

text \<open>
  The claim as worded asks of every input whose origin is a key of the store that the
  entry's bitmap, as passed in, be non-nil and longer than the index. The call below
  completes although the entry of \<open>0x71\<close> is passed in with the nil bitmap of a missing
  transaction and an input of the block refers to its output 0: the block holds the
  transaction \<open>0x71\<close> itself, before the one that spends it.
\<close>

theorem mutators_complete_iff_counterexample:
  "connectTransactions [0x71 \<mapsto> missingTxData 0x71] [] blockW =
     Inr (None, [0x71 \<mapsto> entry71], [[True, False]]) \<and>
   (0x71, 0) \<in> spentBy (Transactions blockW) \<and>
   spent (missingTxData 0x71) = None \<and>
   \<not> inRange [0x71 \<mapsto> missingTxData 0x71] [] 0x71 0"
  by (simp add: connectTransactions_def blockTxSha_def updateRequested_def makeBools_def
      setIndex_def missingTxData_def inRange_def)

section \<open>The stages of fetchTxList\<close>

lemma initStore_entries:
  "initStore st hs h = (if h \<in> set hs then Some (missingTxData h) else st h)"
  by (induction hs arbitrary: st) auto

lemma initStore_dom: "dom (initStore st hs) = dom st \<union> set hs"
  by (auto simp: dom_def initStore_entries)

lemma initStore_keyed: "keyed (initStore Map.empty hs)"
  by (simp add: keyed_def initStore_entries missingTxData_def)

lemma initStore_freshRefs: "freshRefs (initStore Map.empty hs) n"
  by (simp add: freshRefs_def initStore_entries missingTxData_def)

lemma copy_into_new:
  assumes "\<And>s. src = Some s \<Longrightarrow> s < length hp"
  shows "copyBools (Some (length hp)) src (hp @ [replicate (length (elems hp src)) False]) =
           hp @ [elems hp src]"
proof -
  let ?hp1 = "hp @ [replicate (length (elems hp src)) False]"
  have e: "elems ?hp1 src = elems hp src"
    using assms by (cases src) (auto simp: elems_def nth_append)
  have d: "elems ?hp1 (Some (length hp)) = replicate (length (elems hp src)) False"
    by (simp add: elems_def)
  show ?thesis
    by (simp add: copyBools_def e d Let_def)
qed

lemma copyBools_keeps:
  "a < length hp \<Longrightarrow> copyBools (Some (length hp)) src (hp @ [new]) ! a = hp ! a"
  by (simp add: copyBools_def Let_def nth_append)

lemma copyBools_length: "length (copyBools dst src hp) = length hp"
  by (simp add: copyBools_def Let_def split: option.splits)

text \<open>One reply (lines 121 to 137), taken apart.\<close>

lemma fillReplies_Cons_cases:
  assumes "fillReplies st hp (r # rs) = (st', hp')"
  obtains (skip) "st (Sha r) = None" "fillReplies st hp rs = (st', hp')"
  | (failed) d e where "st (Sha r) = Some d" "Err r = Some e"
      "fillReplies (st(Sha r \<mapsto> d\<lparr>err := Some e\<rparr>)) hp rs = (st', hp')"
  | (hit) d where "st (Sha r) = Some d" "Err r = None"
      "fillReplies
         (st(Sha r \<mapsto> d\<lparr>err := None, tx := Tx r, blockHeight := Height r, spent := Some (length hp)\<rparr>))
         (copyBools (Some (length hp)) (TxSpent r) (hp @ [replicate (length (elems hp (TxSpent r))) False]))
         rs = (st', hp')"
  using assms by (auto simp: makeBools_def Let_def split: option.splits)

lemma fillReplies_append:
  "fillReplies st hp (xs @ ys) =
     (case fillReplies st hp xs of (st1, hp1) \<Rightarrow> fillReplies st1 hp1 ys)"
  by (induction xs arbitrary: st hp)
     (auto simp: makeBools_def Let_def split: option.splits prod.splits)

lemma fillReplies_heap:
  "fillReplies st hp rs = (st', hp') \<Longrightarrow>
     length hp \<le> length hp' \<and> (\<forall>a < length hp. hp' ! a = hp ! a)"
proof (induction rs arbitrary: st hp)
  case Nil then show ?case by simp
next
  case (Cons r rs)
  from Cons.prems show ?case
  proof (cases rule: fillReplies_Cons_cases)
    case skip then show ?thesis using Cons.IH by blast
  next
    case (failed d e) then show ?thesis using Cons.IH by blast
  next
    case (hit d)
    let ?hp1 = "copyBools (Some (length hp)) (TxSpent r) (hp @ [replicate (length (elems hp (TxSpent r))) False])"
    from Cons.IH[OF hit(3)]
    have "length ?hp1 \<le> length hp'" and "\<forall>a < length ?hp1. hp' ! a = ?hp1 ! a" by auto
    moreover have "length ?hp1 = Suc (length hp)" by (simp add: copyBools_length)
    ultimately show ?thesis by (auto simp: copyBools_keeps)
  qed
qed

lemma fillReplies_dom: "fillReplies st hp rs = (st', hp') \<Longrightarrow> dom st' = dom st"
proof (induction rs arbitrary: st hp)
  case Nil then show ?case by simp
next
  case (Cons r rs)
  from Cons.prems show ?case
  proof (cases rule: fillReplies_Cons_cases)
    case skip then show ?thesis using Cons.IH by blast
  next
    case (failed d e)
    from Cons.IH[OF failed(3)] failed(1) show ?thesis by (auto split: if_splits)
  next
    case (hit d)
    from Cons.IH[OF hit(3)] hit(1) show ?thesis by (auto split: if_splits)
  qed
qed

lemma fillReplies_other:
  "fillReplies st hp rs = (st', hp') \<Longrightarrow> h \<notin> Sha ` set rs \<Longrightarrow> st' h = st h"
proof (induction rs arbitrary: st hp)
  case Nil then show ?case by simp
next
  case (Cons r rs)
  from Cons.prems(2) have ne: "h \<noteq> Sha r" and notin: "h \<notin> Sha ` set rs" by auto
  from Cons.prems(1) show ?case
  proof (cases rule: fillReplies_Cons_cases)
    case skip then show ?thesis using Cons.IH notin by blast
  next
    case (failed d e)
    from Cons.IH[OF failed(3) notin] ne show ?thesis by simp
  next
    case (hit d)
    from Cons.IH[OF hit(3) notin] ne show ?thesis by simp
  qed
qed

lemma fillReplies_keyed: "fillReplies st hp rs = (st', hp') \<Longrightarrow> keyed st \<Longrightarrow> keyed st'"
proof (induction rs arbitrary: st hp)
  case Nil then show ?case by simp
next
  case (Cons r rs)
  from Cons.prems(1) show ?case
  proof (cases rule: fillReplies_Cons_cases)
    case skip then show ?thesis using Cons.IH Cons.prems(2) by blast
  next
    case (failed d e)
    have "keyed (st(Sha r \<mapsto> d\<lparr>err := Some e\<rparr>))"
      using Cons.prems(2) failed(1) by (auto simp: keyed_def)
    with failed(3) show ?thesis by (rule Cons.IH)
  next
    case (hit d)
    have "keyed (st(Sha r \<mapsto> d\<lparr>err := None, tx := Tx r, blockHeight := Height r, spent := Some (length hp)\<rparr>))"
      using Cons.prems(2) hit(1) by (auto simp: keyed_def)
    with hit(3) show ?thesis by (rule Cons.IH)
  qed
qed

lemma freshRefs_mono: "freshRefs st n \<Longrightarrow> m \<le> n \<Longrightarrow> freshRefs st m"
  unfolding freshRefs_def by fastforce

lemma fillReplies_freshRefs:
  "fillReplies st hp rs = (st', hp') \<Longrightarrow> freshRefs st n \<Longrightarrow> n \<le> length hp \<Longrightarrow> freshRefs st' n"
proof (induction rs arbitrary: st hp)
  case Nil then show ?case by simp
next
  case (Cons r rs)
  from Cons.prems(1) show ?case
  proof (cases rule: fillReplies_Cons_cases)
    case skip then show ?thesis using Cons.IH Cons.prems(2,3) by blast
  next
    case (failed d e)
    have "freshRefs (st(Sha r \<mapsto> d\<lparr>err := Some e\<rparr>)) n"
      using Cons.prems(2) failed(1) unfolding freshRefs_def by (auto split: if_splits)
    with failed(3) show ?thesis using Cons.prems(3) by (rule Cons.IH)
  next
    case (hit d)
    let ?st1 = "st(Sha r \<mapsto> d\<lparr>err := None, tx := Tx r, blockHeight := Height r, spent := Some (length hp)\<rparr>)"
    let ?hp1 = "copyBools (Some (length hp)) (TxSpent r) (hp @ [replicate (length (elems hp (TxSpent r))) False])"
    have "freshRefs ?st1 n"
      using Cons.prems(2,3) unfolding freshRefs_def by (auto split: if_splits)
    moreover have "n \<le> length ?hp1" using Cons.prems(3) by (simp add: copyBools_length)
    ultimately show ?thesis using hit(3) Cons.IH by blast
  qed
qed

lemma fillReplies_validRefs:
  "fillReplies st hp rs = (st', hp') \<Longrightarrow> validRefs st hp \<Longrightarrow> validRefs st' hp'"
proof (induction rs arbitrary: st hp)
  case Nil then show ?case by simp
next
  case (Cons r rs)
  from Cons.prems(1) show ?case
  proof (cases rule: fillReplies_Cons_cases)
    case skip then show ?thesis using Cons.IH Cons.prems(2) by blast
  next
    case (failed d e)
    have "validRefs (st(Sha r \<mapsto> d\<lparr>err := Some e\<rparr>)) hp"
      using Cons.prems(2) failed(1) unfolding validRefs_def by (auto split: if_splits)
    with failed(3) show ?thesis by (rule Cons.IH)
  next
    case (hit d)
    let ?st1 = "st(Sha r \<mapsto> d\<lparr>err := None, tx := Tx r, blockHeight := Height r, spent := Some (length hp)\<rparr>)"
    let ?hp1 = "copyBools (Some (length hp)) (TxSpent r) (hp @ [replicate (length (elems hp (TxSpent r))) False])"
    have "validRefs ?st1 ?hp1"
      using Cons.prems(2) unfolding validRefs_def
      by (auto simp: copyBools_length less_Suc_eq split: if_splits)
    with hit(3) show ?thesis by (rule Cons.IH)
  qed
qed

text \<open>
  The last reply for a requested hash, when it carries no error: the entry has the reply's
  transaction and height and a new array with the elements of the reply's bitmap.
\<close>

lemma fillReplies_copy:
  assumes f: "fillReplies st hp (pre @ r # post) = (st', hp')"
    and key: "st (Sha r) = Some d0"
    and ok: "Err r = None"
    and last: "Sha r \<notin> Sha ` set post"
    and src: "\<And>s. TxSpent r = Some s \<Longrightarrow> s < length hp"
  shows "\<exists>a. st' (Sha r) =
               Some \<lparr>tx = Tx r, hash = hash d0, blockHeight = Height r, spent = Some a, err = None\<rparr> \<and>
             length hp \<le> a \<and> a < length hp' \<and> hp' ! a = elems hp (TxSpent r)"
proof -
  obtain s1 h1 where pre: "fillReplies st hp pre = (s1, h1)" by (cases "fillReplies st hp pre")
  with f have rest: "fillReplies s1 h1 (r # post) = (st', hp')" by (simp add: fillReplies_append)
  from fillReplies_heap[OF pre] have l1: "length hp \<le> length h1"
    and k1: "\<forall>a < length hp. h1 ! a = hp ! a" by auto
  have src1: "\<And>s. TxSpent r = Some s \<Longrightarrow> s < length h1" using src l1 by fastforce
  have e1: "elems h1 (TxSpent r) = elems hp (TxSpent r)"
    using src k1 l1 by (cases "TxSpent r") (auto simp: elems_def)
  have "Sha r \<in> dom s1" using fillReplies_dom[OF pre] key by auto
  then obtain d1 where d1: "s1 (Sha r) = Some d1" by auto
  have hd1: "hash d1 = hash d0"
  proof -
    have "\<And>st hp st' hp' d'. fillReplies st hp pre = (st', hp') \<Longrightarrow> st' (Sha r) = Some d' \<Longrightarrow>
            \<exists>d. st (Sha r) = Some d \<and> hash d = hash d'"
    proof (induction pre)
      case Nil then show ?case by simp
    next
      case (Cons x xs)
      from Cons.prems(1) show ?case
      proof (cases rule: fillReplies_Cons_cases)
        case skip then show ?thesis using Cons.IH Cons.prems(2) by blast
      next
        case (failed d e)
        from Cons.IH[OF failed(3) Cons.prems(2)] failed(1) show ?thesis
          by (auto split: if_splits)
      next
        case (hit d)
        from Cons.IH[OF hit(3) Cons.prems(2)] hit(1) show ?thesis
          by (auto split: if_splits)
      qed
    qed
    from this[OF pre d1] key show ?thesis by simp
  qed
  let ?a = "length h1"
  let ?s2 = "s1(Sha r \<mapsto> d1\<lparr>err := None, tx := Tx r, blockHeight := Height r, spent := Some ?a\<rparr>)"
  let ?h2 = "copyBools (Some ?a) (TxSpent r) (h1 @ [replicate (length (elems h1 (TxSpent r))) False])"
  from rest d1 ok have post: "fillReplies ?s2 ?h2 post = (st', hp')"
    by (cases rule: fillReplies_Cons_cases) simp_all
  have h2: "?h2 = h1 @ [elems h1 (TxSpent r)]" using src1 by (rule copy_into_new)
  from fillReplies_heap[OF post] have l2: "length ?h2 \<le> length hp'"
    and k2: "\<forall>a < length ?h2. hp' ! a = ?h2 ! a" by auto
  have "hp' ! ?a = elems hp (TxSpent r)" using k2 h2 e1 by simp
  moreover have "?a < length hp'" using l2 h2 by simp
  moreover have "st' (Sha r) = ?s2 (Sha r)" using post last by (rule fillReplies_other)
  ultimately show ?thesis using l1 hd1 by (intro exI[of _ ?a]) simp
qed

section \<open>The mutators on a store with new arrays only\<close>

lemma freshRefs_no_hits: "freshRefs st n \<Longrightarrow> a < n \<Longrightarrow> \<not> hits st ops a k"
  unfolding freshRefs_def hits_def by fastforce

lemma connectTxs_freshRefs:
  "connectTxs hgt st hp ts = Inr (st', hp') \<Longrightarrow> freshRefs st n \<Longrightarrow> n \<le> length hp \<Longrightarrow>
     freshRefs st' n"
proof (induction ts arbitrary: st hp)
  case Nil then show ?case by simp
next
  case (Cons t ts)
  from Cons.prems(1) show ?case
  proof (elim connectTxs_ConsE)
    fix st1 hp1 hp2
    assume u: "updateRequested st hp (TxSha t) t hgt = (st1, hp1)"
      and so: "setOrigins True st1 hp1 (TxIn t) = Inr hp2"
      and r: "connectTxs hgt st1 hp2 ts = Inr (st', hp')"
    have "freshRefs st1 n"
      using updateRequested_cases[OF u] Cons.prems(2,3) unfolding freshRefs_def
      by (auto split: if_splits)
    moreover have "n \<le> length hp2"
      using updateRequested_heap[OF u] setOrigins_length[OF so] Cons.prems(3) by simp
    ultimately show ?thesis using r Cons.IH by blast
  qed
qed

lemma disconnectTxs_freshRefs:
  "disconnectTxs st hp ts = Inr (st', hp') \<Longrightarrow> freshRefs st n \<Longrightarrow> freshRefs st' n"
  unfolding freshRefs_def by (auto simp: disconnectTxs_entries split: if_splits)

lemma disconnectTxs_keyed:
  "disconnectTxs st hp ts = Inr (st', hp') \<Longrightarrow> keyed st \<Longrightarrow> keyed st'"
  unfolding keyed_def by (auto simp: disconnectTxs_entries split: if_splits)

lemma connectTxs_keyed:
  "connectTxs hgt st hp ts = Inr (st', hp') \<Longrightarrow> keyed st \<Longrightarrow> keyed st'"
  unfolding keyed_def using connectTxs_hash by fastforce

text \<open>
  What both mutators keep of a store whose keys are among \<open>ks\<close>, whose entries are filed
  under their hashes and whose bitmaps are arrays at \<open>n\<close> or above: all that, and the
  arrays below \<open>n\<close>.
\<close>

lemma mutator_keeps:
  assumes "connectTransactions st hp block = Inr (e, st', hp') \<or>
           disconnectTransactions st hp block = Inr (e, st', hp')"
    and "dom st \<subseteq> ks" "keyed st" "freshRefs st n" "n \<le> length hp"
  shows "dom st' \<subseteq> ks \<and> keyed st' \<and> freshRefs st' n \<and> length hp \<le> length hp' \<and>
         (\<forall>a < n. hp' ! a = hp ! a)"
  using assms(1)
proof
  assume "connectTransactions st hp block = Inr (e, st', hp')"
  then have c: "connectTxs (BlockHeight block) st hp (Transactions block) = Inr (st', hp')"
    by (simp add: connectTransactions_Inr)
  have "hp' ! a = hp ! a" if "a < n" for a
    using c _ freshRefs_no_hits[OF assms(4) that]
    by (rule connectTxs_unreferenced) (use that assms(5) in simp)
  then show ?thesis
    using connectTxs_dom[OF c] connectTxs_keyed[OF c assms(3)]
      connectTxs_freshRefs[OF c assms(4,5)] connectTxs_heap_length[OF c] assms(2) by simp
next
  assume "disconnectTransactions st hp block = Inr (e, st', hp')"
  then have d: "disconnectTxs st hp (Transactions block) = Inr (st', hp')"
    by (simp add: disconnectTransactions_Inr)
  have "hp' ! a = hp ! a" if "a < n" for a
    using d _ freshRefs_no_hits[OF assms(4) that]
    by (rule disconnectTxs_unreferenced) (use that assms(5) in simp)
  then show ?thesis
    using disconnectTxs_dom[OF d] disconnectTxs_keyed[OF d assms(3)]
      disconnectTxs_freshRefs[OF d assms(4)] disconnectTxs_heap_length[OF d] assms(2) by auto
qed

section \<open>The two loops over the reorganize lists\<close>

lemma applyAll_append:
  "applyAll f st hp (xs @ ys) =
     (case applyAll f st hp xs of None \<Rightarrow> None | Some (st', hp') \<Rightarrow> applyAll f st' hp' ys)"
  by (induction xs arbitrary: st hp) (auto split: sum.splits option.splits)

lemma disconnectTransactions_result:
  "disconnectTransactions st hp block = Inr (e, st', hp') \<Longrightarrow> e = None"
  by (simp add: disconnectTransactions_Inr)

lemma connectTransactions_result:
  "connectTransactions st hp block = Inr (e, st', hp') \<Longrightarrow> e = None"
  by (simp add: connectTransactions_Inr)

lemma detachLoop_Inr:
  "detachLoop b st hp calls ns = Inr (Inr st', hp', calls') \<longleftrightarrow>
     (\<exists>blocks. map (\<lambda>n. FetchBlockBySha b (nodeHash n)) ns = map Inr blocks \<and>
               applyAll disconnectTransactions st hp blocks = Some (st', hp')) \<and>
     calls' = calls @ map (\<lambda>n. CallFetchBlockBySha (nodeHash n)) ns"
proof (induction ns arbitrary: st hp calls)
  case Nil then show ?case by auto
next
  case (Cons n ns)
  show ?case
  proof (cases "FetchBlockBySha b (nodeHash n)")
    case (Inl e)
    then show ?thesis by (auto simp: Let_def)
  next
    case (Inr block)
    show ?thesis
    proof (cases "disconnectTransactions st hp block")
      case (Inl p)
      with Inr show ?thesis by (auto simp: Let_def map_eq_Cons_conv)
    next
      case r: (Inr res)
      obtain e st1 hp1 where res: "res = (e, st1, hp1)" by (cases res)
      with r have e: "e = None" by (auto dest: disconnectTransactions_result)
      have "detachLoop b st hp calls (n # ns) =
              detachLoop b st1 hp1 (calls @ [CallFetchBlockBySha (nodeHash n)]) ns"
        using Inr r res by (simp add: Let_def)
      moreover have "(\<exists>blocks. map (\<lambda>n. FetchBlockBySha b (nodeHash n)) (n # ns) = map Inr blocks \<and>
               applyAll disconnectTransactions st hp blocks = Some (st', hp')) \<longleftrightarrow>
            (\<exists>blocks. map (\<lambda>n. FetchBlockBySha b (nodeHash n)) ns = map Inr blocks \<and>
               applyAll disconnectTransactions st1 hp1 blocks = Some (st', hp'))"
        using Inr r res e by (auto simp: map_eq_Cons_conv Cons_eq_map_conv)
      ultimately show ?thesis using Cons.IH by simp
    qed
  qed
qed

lemma attachLoop_Inr:
  "attachLoop b st hp calls ns = Inr (Inr st', hp', calls') \<longleftrightarrow>
     (\<exists>blocks. map (\<lambda>n. blockCache b (nodeHash n)) ns = map Some blocks \<and>
               applyAll connectTransactions st hp blocks = Some (st', hp')) \<and>
     calls' = calls"
proof (induction ns arbitrary: st hp)
  case Nil then show ?case by auto
next
  case (Cons n ns)
  show ?case
  proof (cases "blockCache b (nodeHash n)")
    case None
    then show ?thesis by auto
  next
    case (Some block)
    show ?thesis
    proof (cases "connectTransactions st hp block")
      case (Inl p)
      with Some show ?thesis by (auto simp: map_eq_Cons_conv)
    next
      case r: (Inr res)
      obtain e st1 hp1 where res: "res = (e, st1, hp1)" by (cases res)
      with r have e: "e = None" by (auto dest: connectTransactions_result)
      have "attachLoop b st hp calls (n # ns) = attachLoop b st1 hp1 calls ns"
        using Some r res by simp
      moreover have "(\<exists>blocks. map (\<lambda>n. blockCache b (nodeHash n)) (n # ns) = map Some blocks \<and>
               applyAll connectTransactions st hp blocks = Some (st', hp')) \<longleftrightarrow>
            (\<exists>blocks. map (\<lambda>n. blockCache b (nodeHash n)) ns = map Some blocks \<and>
               applyAll connectTransactions st1 hp1 blocks = Some (st', hp'))"
        using Some r res e by (auto simp: map_eq_Cons_conv Cons_eq_map_conv)
      ultimately show ?thesis using Cons.IH by simp
    qed
  qed
qed

text \<open>The loop stops at the first node without a block in the cache.\<close>

lemma attachLoop_miss:
  assumes "map (\<lambda>n. blockCache b (nodeHash n)) pre = map Some blocks"
    and "applyAll connectTransactions st hp blocks = Some (st', hp')"
    and "blockCache b (nodeHash n) = None"
  shows "attachLoop b st hp calls (pre @ n # post) =
           Inr (Inl (SideChainCacheMiss (nodeHash n)), hp', calls)"
  using assms
proof (induction pre arbitrary: st hp blocks)
  case Nil then show ?case by simp
next
  case (Cons m pre)
  from Cons.prems(1) obtain blk blks where blocks: "blocks = blk # blks"
    and m: "blockCache b (nodeHash m) = Some blk"
    and rest: "map (\<lambda>n. blockCache b (nodeHash n)) pre = map Some blks"
    by (auto simp: Cons_eq_map_conv)
  from Cons.prems(2) blocks obtain st1 hp1 where
    c: "connectTransactions st hp blk = Inr (None, st1, hp1)"
    and a: "applyAll connectTransactions st1 hp1 blks = Some (st', hp')"
    by (auto split: sum.splits option.splits)
  from Cons.IH[OF rest a Cons.prems(3)] m c show ?case by simp
qed

lemma detachLoop_panic: "detachLoop b st hp calls ns = Inl p \<Longrightarrow> p = IndexOutOfRange"
  by (induction ns arbitrary: st hp calls)
     (auto simp: Let_def split: sum.splits dest: disconnectTransactions_panic)

lemma attachLoop_panic: "attachLoop b st hp calls ns = Inl p \<Longrightarrow> p = IndexOutOfRange"
  by (induction ns arbitrary: st hp)
     (auto split: sum.splits option.splits dest: connectTransactions_panic)

lemma attachLoop_error:
  "attachLoop b st hp calls ns = Inr (Inl e, hp', calls') \<Longrightarrow>
     \<exists>n \<in> set ns. blockCache b (nodeHash n) = None \<and> e = SideChainCacheMiss (nodeHash n)"
  by (induction ns arbitrary: st hp) (auto split: sum.splits option.splits)

lemma detachLoop_keeps:
  "detachLoop b st hp calls ns = Inr (r, hp', calls') \<Longrightarrow>
   dom st \<subseteq> ks \<Longrightarrow> keyed st \<Longrightarrow> freshRefs st n \<Longrightarrow> n \<le> length hp \<Longrightarrow>
     length hp \<le> length hp' \<and> (\<forall>a < n. hp' ! a = hp ! a) \<and>
     (\<forall>st'. r = Inr st' \<longrightarrow> dom st' \<subseteq> ks \<and> keyed st' \<and> freshRefs st' n) \<and>
     (\<forall>hs. CallFetchTxByShaList hs \<in> set calls' \<longrightarrow> CallFetchTxByShaList hs \<in> set calls) \<and>
     (\<forall>x. CallGetReorganizeNodes x \<in> set calls' \<longrightarrow> CallGetReorganizeNodes x \<in> set calls)"
proof (induction ns arbitrary: st hp calls)
  case Nil then show ?case by auto
next
  case (Cons m ns)
  show ?case
  proof (cases "FetchBlockBySha b (nodeHash m)")
    case (Inl e)
    with Cons.prems(1) show ?thesis by (auto simp: Let_def)
  next
    case (Inr block)
    with Cons.prems(1) obtain e st1 hp1 where
      d: "disconnectTransactions st hp block = Inr (e, st1, hp1)"
      and rest: "detachLoop b st1 hp1 (calls @ [CallFetchBlockBySha (nodeHash m)]) ns = Inr (r, hp', calls')"
      by (auto simp: Let_def split: sum.splits)
    from mutator_keeps[OF disjI2[OF d] Cons.prems(2,3,4,5)]
    have k: "dom st1 \<subseteq> ks" "keyed st1" "freshRefs st1 n" "length hp \<le> length hp1"
      "\<forall>a < n. hp1 ! a = hp ! a" by auto
    have n1: "n \<le> length hp1" using k(4) Cons.prems(5) by simp
    from Cons.IH[OF rest k(1,2,3) n1] k(4,5) show ?thesis by auto
  qed
qed

lemma attachLoop_keeps:
  "attachLoop b st hp calls ns = Inr (r, hp', calls') \<Longrightarrow>
   dom st \<subseteq> ks \<Longrightarrow> keyed st \<Longrightarrow> freshRefs st n \<Longrightarrow> n \<le> length hp \<Longrightarrow>
     length hp \<le> length hp' \<and> (\<forall>a < n. hp' ! a = hp ! a) \<and>
     (\<forall>st'. r = Inr st' \<longrightarrow> dom st' \<subseteq> ks \<and> keyed st' \<and> freshRefs st' n) \<and> calls' = calls"
proof (induction ns arbitrary: st hp)
  case Nil then show ?case by auto
next
  case (Cons m ns)
  show ?case
  proof (cases "blockCache b (nodeHash m)")
    case None
    with Cons.prems(1) show ?thesis by auto
  next
    case (Some block)
    with Cons.prems(1) obtain e st1 hp1 where
      c: "connectTransactions st hp block = Inr (e, st1, hp1)"
      and rest: "attachLoop b st1 hp1 calls ns = Inr (r, hp', calls')"
      by (auto split: sum.splits)
    from mutator_keeps[OF disjI1[OF c] Cons.prems(2,3,4,5)]
    have k: "dom st1 \<subseteq> ks" "keyed st1" "freshRefs st1 n" "length hp \<le> length hp1"
      "\<forall>a < n. hp1 ! a = hp ! a" by auto
    have n1: "n \<le> length hp1" using k(4) Cons.prems(5) by simp
    from Cons.IH[OF rest k(1,2,3) n1] k(4,5) show ?thesis by auto
  qed
qed

section \<open>The paths through fetchTxList\<close>

lemma returned_simps [simp]:
  "returned (Inl p) = Inl p"
  "returned (Inr (Inl e, hp, calls)) = Inr ((None, Some e), hp, calls)"
  "returned (Inr (Inr st, hp, calls)) = Inr ((Some st, None), hp, calls)"
  by (simp_all add: returned_def)

lemma fetchTxList_prev_error:
  "getPrevNodeFromNode b node = Inl e \<Longrightarrow>
   fetchTxList b hp node txList =
     Inr ((None, Some e), hp, [CallGetPrevNodeFromNode (nodeHash node)])"
  by (simp add: fetchTxList_def)

lemma fetchTxList_shortcut:
  "getPrevNodeFromNode b node = Inr prevNode \<Longrightarrow> extendsBestChain b prevNode \<Longrightarrow>
   fillReplies (initStore Map.empty txList) hp (FetchTxByShaList b txList) = (st0, hp0) \<Longrightarrow>
   fetchTxList b hp node txList =
     Inr ((Some st0, None), hp0,
          [CallGetPrevNodeFromNode (nodeHash node), CallFetchTxByShaList txList])"
  by (simp add: fetchTxList_def)

lemma fetchTxList_reorganize:
  "getPrevNodeFromNode b node = Inr prevNode \<Longrightarrow> \<not> extendsBestChain b prevNode \<Longrightarrow>
   fillReplies (initStore Map.empty txList) hp (FetchTxByShaList b txList) = (st0, hp0) \<Longrightarrow>
   getReorganizeNodes b prevNode = (detachNodes, attachNodes) \<Longrightarrow>
   fetchTxList b hp node txList =
     (case detachLoop b st0 hp0
             [CallGetPrevNodeFromNode (nodeHash node), CallFetchTxByShaList txList,
              CallGetReorganizeNodes (map_option nodeHash prevNode)] detachNodes of
        Inl p \<Rightarrow> Inl p
      | Inr (Inl e, hp1, calls) \<Rightarrow> Inr ((None, Some e), hp1, calls)
      | Inr (Inr st1, hp1, calls) \<Rightarrow>
          if attachNodes = [] then Inr ((Some st1, None), hp1, calls)
          else returned (attachLoop b st1 hp1 calls attachNodes))"
  by (simp add: fetchTxList_def)

lemma baseline_keeps:
  assumes "fillReplies (initStore Map.empty txList) hp rs = (st0, hp0)"
  shows "dom st0 \<subseteq> set txList \<and> keyed st0 \<and> freshRefs st0 (length hp) \<and>
         length hp \<le> length hp0 \<and> (\<forall>a < length hp. hp0 ! a = hp ! a)"
  using fillReplies_dom[OF assms] fillReplies_keyed[OF assms initStore_keyed]
    fillReplies_freshRefs[OF assms initStore_freshRefs] fillReplies_heap[OF assms]
  by (simp add: initStore_dom)

text \<open>
  What every return of \<open>fetchTxList\<close> keeps: the arrays there were before the call, and,
  of a returned store, that its keys are requested hashes, its entries are filed under their
  hashes and its bitmaps are arrays made during the call. The bulk query is the only call
  of \<open>FetchTxByShaList\<close>.
\<close>

lemma fetchTxList_keeps:
  assumes "fetchTxList b hp node txList = Inr ((v, e), hp', calls)"
  shows "length hp \<le> length hp' \<and> (\<forall>a < length hp. hp' ! a = hp ! a) \<and>
         (\<forall>st. v = Some st \<longrightarrow> dom st \<subseteq> set txList \<and> keyed st \<and> freshRefs st (length hp)) \<and>
         (\<forall>hs. CallFetchTxByShaList hs \<in> set calls \<longrightarrow> hs = txList)"
proof (cases "getPrevNodeFromNode b node")
  case (Inl err)
  from fetchTxList_prev_error[OF this, of hp txList] assms show ?thesis by auto
next
  case (Inr prevNode)
  obtain st0 hp0 where f: "fillReplies (initStore Map.empty txList) hp (FetchTxByShaList b txList) = (st0, hp0)"
    by (cases "fillReplies (initStore Map.empty txList) hp (FetchTxByShaList b txList)")
  note B = baseline_keeps[OF f]
  show ?thesis
  proof (cases "extendsBestChain b prevNode")
    case True
    from fetchTxList_shortcut[OF Inr True f] assms B show ?thesis by auto
  next
    case False
    obtain detachNodes attachNodes where g: "getReorganizeNodes b prevNode = (detachNodes, attachNodes)"
      by (cases "getReorganizeNodes b prevNode")
    let ?calls0 = "[CallGetPrevNodeFromNode (nodeHash node), CallFetchTxByShaList txList,
              CallGetReorganizeNodes (map_option nodeHash prevNode)]"
    note R = fetchTxList_reorganize[OF Inr False f g]
    from R assms obtain r1 hp1 calls1 where
      d: "detachLoop b st0 hp0 ?calls0 detachNodes = Inr (r1, hp1, calls1)"
      by (cases "detachLoop b st0 hp0 ?calls0 detachNodes") (auto split: sum.splits)
    have n0: "length hp \<le> length hp0" using B by simp
    from detachLoop_keeps[OF d, of "set txList" "length hp"] B
    have D: "length hp0 \<le> length hp1" "\<forall>a < length hp. hp1 ! a = hp0 ! a"
      "\<forall>st'. r1 = Inr st' \<longrightarrow> dom st' \<subseteq> set txList \<and> keyed st' \<and> freshRefs st' (length hp)"
      "\<forall>hs. CallFetchTxByShaList hs \<in> set calls1 \<longrightarrow> hs = txList"
      by auto
    show ?thesis
    proof (cases r1)
      case (Inl err)
      with R d assms have "v = None" "hp' = hp1" "calls = calls1" by auto
      with B D show ?thesis by auto
    next
      case r: (Inr st1)
      show ?thesis
      proof (cases "attachNodes = []")
        case True
        with R d r assms have "v = Some st1" "hp' = hp1" "calls = calls1" by auto
        with B D r show ?thesis by auto
      next
        case False
        with R d r assms obtain r2 where
          a: "attachLoop b st1 hp1 calls1 attachNodes = Inr (r2, hp', calls)"
          and v: "v = (case r2 of Inl _ \<Rightarrow> None | Inr st \<Rightarrow> Some st)"
          by (cases "attachLoop b st1 hp1 calls1 attachNodes")
             (auto simp: returned_def split: sum.splits)
        have n1: "length hp \<le> length hp1" using n0 D(1) by simp
        from attachLoop_keeps[OF a, of "set txList" "length hp"] D(3) r n1
        have A: "length hp1 \<le> length hp'" "\<forall>a < length hp. hp' ! a = hp1 ! a"
          "\<forall>st'. r2 = Inr st' \<longrightarrow> dom st' \<subseteq> set txList \<and> keyed st' \<and> freshRefs st' (length hp)"
          "calls = calls1"
          by auto
        from B D A v show ?thesis by (auto split: sum.splits)
      qed
    qed
  qed
qed

lemma fetchTxList_panic: "fetchTxList b hp node txList = Inl p \<Longrightarrow> p = IndexOutOfRange"
proof (cases "getPrevNodeFromNode b node")
  case (Inl err)
  assume "fetchTxList b hp node txList = Inl p"
  with fetchTxList_prev_error[OF Inl, of hp txList] show ?thesis by simp
next
  case (Inr prevNode)
  assume p: "fetchTxList b hp node txList = Inl p"
  obtain st0 hp0 where f: "fillReplies (initStore Map.empty txList) hp (FetchTxByShaList b txList) = (st0, hp0)"
    by (cases "fillReplies (initStore Map.empty txList) hp (FetchTxByShaList b txList)")
  show ?thesis
  proof (cases "extendsBestChain b prevNode")
    case True
    from fetchTxList_shortcut[OF Inr True f] p show ?thesis by simp
  next
    case False
    obtain detachNodes attachNodes where g: "getReorganizeNodes b prevNode = (detachNodes, attachNodes)"
      by (cases "getReorganizeNodes b prevNode")
    from fetchTxList_reorganize[OF Inr False f g] p show ?thesis
      by (auto simp: returned_def split: sum.splits if_splits
               dest: detachLoop_panic attachLoop_panic)
  qed
qed

section \<open>The claims about fetchTxList\<close>

text \<open>
  Claim C5. Let the previous node have been found (line 99). If no best chain is selected
  yet, or the previous node is the end of the best chain, \<open>fetchTxList\<close> returns the
  store as the bulk query filled it, with no error: the calls made are the lookup of the
  previous node and the bulk query, \<open>getReorganizeNodes\<close> is not called, no block is
  fetched and neither mutator is applied.
\<close>

theorem fetchTxList_main_chain_shortcut:
  assumes "getPrevNodeFromNode b node = Inr prevNode"
    and "bestChain b = None \<or>
         (\<exists>p best. prevNode = Some p \<and> bestChain b = Some best \<and> nodeHash p = nodeHash best)"
  shows "\<exists>st0 hp0.
           fillReplies (initStore Map.empty txList) hp (FetchTxByShaList b txList) = (st0, hp0) \<and>
           fetchTxList b hp node txList =
             Inr ((Some st0, None), hp0,
                  [CallGetPrevNodeFromNode (nodeHash node), CallFetchTxByShaList txList])"
proof -
  obtain st0 hp0 where f: "fillReplies (initStore Map.empty txList) hp (FetchTxByShaList b txList) = (st0, hp0)"
    by (cases "fillReplies (initStore Map.empty txList) hp (FetchTxByShaList b txList)")
  have "extendsBestChain b prevNode"
    using assms(2) by (auto simp: extendsBestChain_def)
  from fetchTxList_shortcut[OF assms(1) this f] f show ?thesis by blast
qed

theorem fetchTxList_main_chain_shortcut_witness:
  "fetchTxList chainR [[True, False], [False]] nodeB3 [0x58] =
     Inr ((Some [0x58 \<mapsto> \<lparr>tx = Some tx58, hash = 0x58, blockHeight = 1, spent = Some 2, err = None\<rparr>],
           None),
          [[True, False], [False], [True, False]],
          [CallGetPrevNodeFromNode 0xB3, CallFetchTxByShaList [0x58]])"
proof -
  have p: "getPrevNodeFromNode chainR nodeB3 = Inr (Some nodeM2)" by simp
  have c: "bestChain chainR = None \<or>
         (\<exists>p best. Some nodeM2 = Some p \<and> bestChain chainR = Some best \<and> nodeHash p = nodeHash best)"
    by simp
  have f: "fillReplies (initStore Map.empty [0x58]) [[True, False], [False]]
             (FetchTxByShaList chainR [0x58]) =
           ([0x58 \<mapsto> \<lparr>tx = Some tx58, hash = 0x58, blockHeight = 1, spent = Some 2, err = None\<rparr>],
            [[True, False], [False], [True, False]])"
    by (simp add: missingTxData_def makeBools_def copyBools_def elems_def numeral_2_eq_2[symmetric])
  from fetchTxList_main_chain_shortcut[OF p c, of "[0x58]" "[[True, False], [False]]"] f
  show ?thesis by simp
qed

lemma fetchTxList_returns:
  assumes Inr: "fetchTxList b hp node txList = Inr res" and res: "res = ((v, e), hp', calls)"
  shows "(v = None \<and> e \<noteq> None) \<or>
         (e = None \<and> (\<exists>st. v = Some st \<and> resolved b hp node txList st hp'))"
  proof (cases "getPrevNodeFromNode b node")
    case (Inl err)
    from fetchTxList_prev_error[OF this, of hp txList] Inr res show ?thesis by simp
  next
    case p: (Inr prevNode)
    obtain st0 hp0 where f: "fillReplies (initStore Map.empty txList) hp (FetchTxByShaList b txList) = (st0, hp0)"
      by (cases "fillReplies (initStore Map.empty txList) hp (FetchTxByShaList b txList)")
    show ?thesis
    proof (cases "extendsBestChain b prevNode")
      case True
      from fetchTxList_shortcut[OF p True f] Inr res
      have "v = Some st0" "e = None" "hp' = hp0" by simp_all
      then show ?thesis using p f True by (auto simp: resolved_def)
    next
      case False
      obtain detachNodes attachNodes where g: "getReorganizeNodes b prevNode = (detachNodes, attachNodes)"
        by (cases "getReorganizeNodes b prevNode")
      let ?calls0 = "[CallGetPrevNodeFromNode (nodeHash node), CallFetchTxByShaList txList,
              CallGetReorganizeNodes (map_option nodeHash prevNode)]"
      note R = fetchTxList_reorganize[OF p False f g]
      from R Inr res obtain r1 hp1 calls1 where
        d: "detachLoop b st0 hp0 ?calls0 detachNodes = Inr (r1, hp1, calls1)"
        by (cases "detachLoop b st0 hp0 ?calls0 detachNodes") (auto split: sum.splits)
      show ?thesis
      proof (cases r1)
        case (Inl err)
        with R d Inr res show ?thesis by auto
      next
        case r: (Inr st1)
        from d[unfolded r detachLoop_Inr] obtain dblocks where
          db: "map (\<lambda>n. FetchBlockBySha b (nodeHash n)) detachNodes = map Inr dblocks"
          and da: "applyAll disconnectTransactions st0 hp0 dblocks = Some (st1, hp1)"
          by blast
        show ?thesis
        proof (cases "attachNodes = []")
          case True
          with R d r Inr res have "v = Some st1" "e = None" "hp' = hp1" by auto
          moreover have "resolved b hp node txList st1 hp1"
            unfolding resolved_def
            using p f False g db da True
            by (intro exI[of _ prevNode] exI[of _ st0] exI[of _ hp0]) auto
          ultimately show ?thesis by simp
        next
          case ne: False
          from R d r ne Inr res
          have a: "returned (attachLoop b st1 hp1 calls1 attachNodes) = Inr ((v, e), hp', calls)"
            by simp
          show ?thesis
          proof (cases "attachLoop b st1 hp1 calls1 attachNodes")
            case (Inl p')
            with a show ?thesis by simp
          next
            case ar: (Inr ares)
            obtain r2 hp2 calls2 where ares: "ares = (r2, hp2, calls2)" by (cases ares)
            show ?thesis
            proof (cases r2)
              case (Inl err)
              with a ar ares show ?thesis by auto
            next
              case r2: (Inr st2)
              with a ar ares have ve: "v = Some st2" "e = None" "hp' = hp2" by simp_all
              from ar[unfolded ares r2 attachLoop_Inr] obtain ablocks where
                ab: "map (\<lambda>n. blockCache b (nodeHash n)) attachNodes = map Some ablocks"
                and aa: "applyAll connectTransactions st1 hp1 ablocks = Some (st2, hp2)"
                by blast
              have "resolved b hp node txList st2 hp2"
                unfolding resolved_def
                using p f False g db da ab aa
                by (intro exI[of _ prevNode] exI[of _ st0] exI[of _ hp0]) auto
              with ve show ?thesis by simp
            qed
          qed
        qed
      qed
    qed
  qed

text \<open>
  Claim C4. Every return of \<open>fetchTxList\<close> is either an error beside a nil map or a map
  beside a nil error, and the map is then the fully resolved store (\<open>resolved\<close>). A call
  that does not return has panicked with an index out of range in a mutator.
\<close>

theorem fetchTxList_no_partial_view:
  "case fetchTxList b hp node txList of
     Inl p \<Rightarrow> p = IndexOutOfRange
   | Inr ((v, e), hp', calls) \<Rightarrow>
       (v = None \<and> e \<noteq> None) \<or>
       (e = None \<and> (\<exists>st. v = Some st \<and> resolved b hp node txList st hp'))"
proof (cases "fetchTxList b hp node txList")
  case (Inl p)
  then show ?thesis using fetchTxList_panic by simp
next
  case (Inr res)
  obtain v e hp' calls where res: "res = ((v, e), hp', calls)" by (cases res) auto
  from fetchTxList_returns[OF Inr res] Inr res show ?thesis by simp
qed

theorem fetchTxList_no_partial_view_witness:
  "\<exists>st hp' calls.
     fetchTxList chainR [[True, False], [False]] nodeA3 [0x58] = Inr ((Some st, None), hp', calls) \<and>
     resolved chainR [[True, False], [False]] nodeA3 [0x58] st hp' \<and>
     map_option (bitmap hp') (st 0x58) = Some [True, False] \<and>
     calls = [CallGetPrevNodeFromNode 0xA3, CallFetchTxByShaList [0x58],
              CallGetReorganizeNodes (Some 0xA2), CallFetchBlockBySha 0xB2]"
  using fetchTxList_no_partial_view[of chainR "[[True, False], [False]]" nodeA3 "[0x58]"]
  by (simp add: fetchTxList_def missingTxData_def makeBools_def copyBools_def elems_def
      extendsBestChain_def disconnectTransactions_def connectTransactions_def blockTxSha_def
      updateRequested_def setIndex_def bitmap_def)

text \<open>
  Claim C7. Let the resolution have left the main-chain shortcut aside and let the node
  \<open>n\<close> of the attach list have no block in the side chain cache. Then no store is
  returned: the call returns an error beside a nil map, unless a mutator has panicked
  before. When the blocks of the detach list are fetched and disconnected and the blocks of
  the attach nodes before \<open>n\<close> are found and connected, each call completing, the call
  returns at \<open>n\<close>, with the error built for \<open>n\<close> and the arrays as they are then.
\<close>

theorem side_chain_cache_miss:
  assumes p: "getPrevNodeFromNode b node = Inr prevNode"
    and ne: "\<not> extendsBestChain b prevNode"
    and g: "getReorganizeNodes b prevNode = (detachNodes, pre @ n # post)"
    and miss: "blockCache b (nodeHash n) = None"
  shows "(case fetchTxList b hp node txList of
            Inl q \<Rightarrow> q = IndexOutOfRange
          | Inr ((v, e), hp', calls) \<Rightarrow> v = None \<and> e \<noteq> None) \<and>
         (fillReplies (initStore Map.empty txList) hp (FetchTxByShaList b txList) = (st0, hp0) \<and>
          map (\<lambda>m. FetchBlockBySha b (nodeHash m)) detachNodes = map Inr dblocks \<and>
          applyAll disconnectTransactions st0 hp0 dblocks = Some (st1, hp1) \<and>
          map (\<lambda>m. blockCache b (nodeHash m)) pre = map Some ablocks \<and>
          applyAll connectTransactions st1 hp1 ablocks = Some (st2, hp2) \<longrightarrow>
          fetchTxList b hp node txList =
            Inr ((None, Some (SideChainCacheMiss (nodeHash n))), hp2,
                 [CallGetPrevNodeFromNode (nodeHash node), CallFetchTxByShaList txList,
                  CallGetReorganizeNodes (map_option nodeHash prevNode)] @
                 map (\<lambda>m. CallFetchBlockBySha (nodeHash m)) detachNodes))"
proof (intro conjI impI)
  let ?calls0 = "[CallGetPrevNodeFromNode (nodeHash node), CallFetchTxByShaList txList,
              CallGetReorganizeNodes (map_option nodeHash prevNode)]"
  let ?attach = "pre @ n # post"
  obtain s0 h0 where f: "fillReplies (initStore Map.empty txList) hp (FetchTxByShaList b txList) = (s0, h0)"
    by (cases "fillReplies (initStore Map.empty txList) hp (FetchTxByShaList b txList)")
  note R = fetchTxList_reorganize[OF p ne f g]
  have never: "attachLoop b s h c ?attach \<noteq> Inr (Inr s', h', c')" for s h c s' h' c'
  proof
    assume "attachLoop b s h c ?attach = Inr (Inr s', h', c')"
    then obtain blocks where "map (\<lambda>m. blockCache b (nodeHash m)) ?attach = map Some blocks"
      unfolding attachLoop_Inr by blast
    then have "blockCache b (nodeHash n) \<in> Some ` set blocks"
      by (metis (no_types, lifting) in_set_conv_decomp list.set_map image_eqI)
    with miss show False by auto
  qed
  show "case fetchTxList b hp node txList of
            Inl q \<Rightarrow> q = IndexOutOfRange
          | Inr ((v, e), hp', calls) \<Rightarrow> v = None \<and> e \<noteq> None"
  proof (cases "detachLoop b s0 h0 ?calls0 detachNodes")
    case (Inl q)
    with R detachLoop_panic[OF Inl] show ?thesis by simp
  next
    case (Inr res)
    obtain r1 h1 c1 where res: "res = (r1, h1, c1)" by (cases res)
    show ?thesis
    proof (cases r1)
      case (Inl err)
      with R Inr res show ?thesis by simp
    next
      case r: (Inr s1)
      from R Inr res r have E: "fetchTxList b hp node txList = returned (attachLoop b s1 h1 c1 ?attach)"
        by simp
      show ?thesis
      proof (cases "attachLoop b s1 h1 c1 ?attach")
        case (Inl q)
        with E attachLoop_panic[OF Inl] show ?thesis by simp
      next
        case ar: (Inr ares)
        obtain r2 h2 c2 where ares: "ares = (r2, h2, c2)" by (cases ares)
        show ?thesis
        proof (cases r2)
          case (Inl err)
          with E ar ares show ?thesis by simp
        next
          case (Inr s2)
          with ar ares never show ?thesis by blast
        qed
      qed
    qed
  qed
next
  let ?calls0 = "[CallGetPrevNodeFromNode (nodeHash node), CallFetchTxByShaList txList,
              CallGetReorganizeNodes (map_option nodeHash prevNode)]"
  assume A: "fillReplies (initStore Map.empty txList) hp (FetchTxByShaList b txList) = (st0, hp0) \<and>
          map (\<lambda>m. FetchBlockBySha b (nodeHash m)) detachNodes = map Inr dblocks \<and>
          applyAll disconnectTransactions st0 hp0 dblocks = Some (st1, hp1) \<and>
          map (\<lambda>m. blockCache b (nodeHash m)) pre = map Some ablocks \<and>
          applyAll connectTransactions st1 hp1 ablocks = Some (st2, hp2)"
  then have f: "fillReplies (initStore Map.empty txList) hp (FetchTxByShaList b txList) = (st0, hp0)"
    by simp
  have d: "detachLoop b st0 hp0 ?calls0 detachNodes =
             Inr (Inr st1, hp1, ?calls0 @ map (\<lambda>m. CallFetchBlockBySha (nodeHash m)) detachNodes)"
    unfolding detachLoop_Inr using A by blast
  have a: "attachLoop b st1 hp1 c (pre @ n # post) =
             Inr (Inl (SideChainCacheMiss (nodeHash n)), hp2, c)" for c
    using A miss by (intro attachLoop_miss[where blocks = ablocks]) simp_all
  show "fetchTxList b hp node txList =
            Inr ((None, Some (SideChainCacheMiss (nodeHash n))), hp2,
                 ?calls0 @ map (\<lambda>m. CallFetchBlockBySha (nodeHash m)) detachNodes)"
    using fetchTxList_reorganize[OF p ne f g] d a by simp
qed

theorem side_chain_cache_miss_witness:
  "fetchTxList (chainR\<lparr>blockCache := Map.empty\<rparr>) [[True, False], [False]] nodeA3 [0x58] =
     Inr ((None, Some (SideChainCacheMiss 0xA2)),
          [[True, False], [False], [False, False]],
          [CallGetPrevNodeFromNode 0xA3, CallFetchTxByShaList [0x58],
           CallGetReorganizeNodes (Some 0xA2), CallFetchBlockBySha 0xB2])"
proof -
  let ?b = "chainR\<lparr>blockCache := Map.empty\<rparr>"
  let ?hp = "[[True, False], [False]]"
  have p: "getPrevNodeFromNode ?b nodeA3 = Inr (Some nodeS2)" by simp
  have ne: "\<not> extendsBestChain ?b (Some nodeS2)" by (simp add: extendsBestChain_def)
  have g: "getReorganizeNodes ?b (Some nodeS2) = ([nodeM2], [] @ nodeS2 # [])" by simp
  have miss: "blockCache ?b (nodeHash nodeS2) = None" by simp
  have f: "fillReplies (initStore Map.empty [0x58]) ?hp (FetchTxByShaList ?b [0x58]) =
             ([0x58 \<mapsto> entry58c], [[True, False], [False], [True, False]])"
    by (simp add: missingTxData_def makeBools_def copyBools_def elems_def numeral_2_eq_2[symmetric])
  have fb: "map (\<lambda>m. FetchBlockBySha ?b (nodeHash m)) [nodeM2] = map Inr [blockM2]" by simp
  have d: "applyAll disconnectTransactions [0x58 \<mapsto> entry58c] [[True, False], [False], [True, False]]
             [blockM2] = Some ([0x58 \<mapsto> entry58c], [[True, False], [False], [False, False]])"
    by (simp add: disconnectTransactions_def blockTxSha_def setIndex_def fun_eq_iff)
  have pc: "map (\<lambda>m. blockCache ?b (nodeHash m)) [] = map Some []" by simp
  have c: "applyAll connectTransactions [0x58 \<mapsto> entry58c] [[True, False], [False], [False, False]] [] =
             Some ([0x58 \<mapsto> entry58c], [[True, False], [False], [False, False]])"
    by simp
  from side_chain_cache_miss[OF p ne g miss, of ?hp "[0x58]" "[0x58 \<mapsto> entry58c]"
      "[[True, False], [False], [True, False]]" "[blockM2]" "[0x58 \<mapsto> entry58c]"
      "[[True, False], [False], [False, False]]" "[]" "[0x58 \<mapsto> entry58c]"
      "[[True, False], [False], [False, False]]"] f fb d pc c
  show ?thesis by simp
qed

text \<open>
  Claim C8. Take the last reply of the bulk query for a requested hash, carrying no error,
  its bitmap an array of the store of arrays as it is when storage answers. The entry then
  gets the reply's transaction and height and a bitmap that is an array made during the
  call, not the reply's, with the elements of the reply's bitmap. Every return of
  \<open>fetchTxList\<close> leaves the reply's bitmap with its elements, and no bitmap of a returned
  store is the reply's array.
\<close>

theorem spent_bitmap_is_copied:
  assumes rs: "FetchTxByShaList b txList = pre @ r # post"
    and req: "Sha r \<in> set txList"
    and ok: "Err r = None"
    and last: "Sha r \<notin> Sha ` set post"
    and src: "\<forall>s. TxSpent r = Some s \<longrightarrow> s < length hp"
  shows "(\<exists>st0 hp0 d a.
            fillReplies (initStore Map.empty txList) hp (FetchTxByShaList b txList) = (st0, hp0) \<and>
            st0 (Sha r) = Some d \<and> tx d = Tx r \<and> blockHeight d = Height r \<and> err d = None \<and>
            spent d = Some a \<and> TxSpent r \<noteq> Some a \<and> length hp \<le> a \<and>
            bitmap hp0 d = elems hp (TxSpent r)) \<and>
         (\<forall>v e hp' calls. fetchTxList b hp node txList = Inr ((v, e), hp', calls) \<longrightarrow>
            elems hp' (TxSpent r) = elems hp (TxSpent r) \<and>
            (\<forall>st h d a. v = Some st \<and> st h = Some d \<and> spent d = Some a \<longrightarrow> TxSpent r \<noteq> Some a))"
proof (intro conjI allI impI)
  obtain st0 hp0 where f: "fillReplies (initStore Map.empty txList) hp (pre @ r # post) = (st0, hp0)"
    by (cases "fillReplies (initStore Map.empty txList) hp (pre @ r # post)")
  have key: "initStore Map.empty txList (Sha r) = Some (missingTxData (Sha r))"
    using req by (simp add: initStore_entries)
  from fillReplies_copy[OF f key ok last] src obtain a where
    e: "st0 (Sha r) = Some \<lparr>tx = Tx r, hash = hash (missingTxData (Sha r)), blockHeight = Height r,
                             spent = Some a, err = None\<rparr>"
    and a: "length hp \<le> a" "a < length hp0" "hp0 ! a = elems hp (TxSpent r)"
    by blast
  have "TxSpent r \<noteq> Some a" using src a(1) by auto
  with f e a show "\<exists>st0 hp0 d a.
            fillReplies (initStore Map.empty txList) hp (FetchTxByShaList b txList) = (st0, hp0) \<and>
            st0 (Sha r) = Some d \<and> tx d = Tx r \<and> blockHeight d = Height r \<and> err d = None \<and>
            spent d = Some a \<and> TxSpent r \<noteq> Some a \<and> length hp \<le> a \<and>
            bitmap hp0 d = elems hp (TxSpent r)"
    unfolding rs by (auto simp: bitmap_Some)
next
  fix v e hp' calls
  assume run: "fetchTxList b hp node txList = Inr ((v, e), hp', calls)"
  from fetchTxList_keeps[OF run]
  have l: "length hp \<le> length hp'" and k: "\<forall>a < length hp. hp' ! a = hp ! a"
    and fr: "\<forall>st. v = Some st \<longrightarrow> freshRefs st (length hp)" by auto
  show "elems hp' (TxSpent r) = elems hp (TxSpent r)"
    using src l k by (cases "TxSpent r") (auto simp: elems_def)
  fix st h d a
  assume "v = Some st \<and> st h = Some d \<and> spent d = Some a"
  with fr have "length hp \<le> a" by (auto simp: freshRefs_def)
  with src show "TxSpent r \<noteq> Some a" by auto
qed

theorem spent_bitmap_is_copied_witness:
  "(\<exists>st0 hp0 d a.
      fillReplies (initStore Map.empty [0x58]) [[True, False], [False]]
        (FetchTxByShaList chainR [0x58]) = (st0, hp0) \<and>
      st0 0x58 = Some d \<and> spent d = Some a \<and> Some 0 \<noteq> Some a \<and> 2 \<le> a \<and>
      bitmap hp0 d = [True, False]) \<and>
   (\<exists>st hp' calls.
      fetchTxList chainR [[True, False], [False]] nodeA3 [0x58] = Inr ((Some st, None), hp', calls) \<and>
      map_option (bitmap hp') (st 0x58) = Some [True, False] \<and>
      elems hp' (Some 0) = [True, False])"
proof -
  have rs: "FetchTxByShaList chainR [0x58] = [] @ reply58 # [reply77]" by simp
  have src: "\<forall>s. TxSpent reply58 = Some s \<longrightarrow> s < length [[True, False], [False]]" by simp
  have req: "Sha reply58 \<in> set [0x58]" and ok: "Err reply58 = None"
    and last: "Sha reply58 \<notin> Sha ` set [reply77]" by simp_all
  from spent_bitmap_is_copied[OF rs req ok last src, of nodeA3, THEN conjunct1]
  obtain st0 hp0 d a where
    f: "fillReplies (initStore Map.empty [0x58]) [[True, False], [False]]
          (FetchTxByShaList chainR [0x58]) = (st0, hp0)"
    and e: "st0 (Sha reply58) = Some d" "spent d = Some a" "TxSpent reply58 \<noteq> Some a"
      "length [[True, False], [False]] \<le> a"
      "bitmap hp0 d = elems [[True, False], [False]] (TxSpent reply58)"
    by blast
  have A: "\<exists>st0 hp0 d a.
      fillReplies (initStore Map.empty [0x58]) [[True, False], [False]]
        (FetchTxByShaList chainR [0x58]) = (st0, hp0) \<and>
      st0 0x58 = Some d \<and> spent d = Some a \<and> Some 0 \<noteq> Some a \<and> 2 \<le> a \<and>
      bitmap hp0 d = [True, False]"
  proof (intro exI conjI)
    show "fillReplies (initStore Map.empty [0x58]) [[True, False], [False]]
        (FetchTxByShaList chainR [0x58]) = (st0, hp0)" by (rule f)
    show "st0 0x58 = Some d" using e(1) by simp
    show "spent d = Some a" by (rule e(2))
    show "Some 0 \<noteq> Some a" using e(3) by simp
    show "2 \<le> a" using e(4) by simp
    show "bitmap hp0 d = [True, False]" using e(5) by (simp add: elems_def)
  qed
  have B: "\<exists>st hp' calls.
      fetchTxList chainR [[True, False], [False]] nodeA3 [0x58] = Inr ((Some st, None), hp', calls) \<and>
      map_option (bitmap hp') (st 0x58) = Some [True, False] \<and>
      elems hp' (Some 0) = [True, False]"
    by (simp add: fetchTxList_def missingTxData_def makeBools_def copyBools_def elems_def
      extendsBestChain_def disconnectTransactions_def connectTransactions_def blockTxSha_def
      updateRequested_def setIndex_def bitmap_def)
  from A B show ?thesis ..
qed

text \<open>
  Claim C1 at a concrete request. The transaction \<open>0x77\<close> is requested from the point of
  view of node \<open>0xA3\<close>, whose branch holds it in block \<open>0xA2\<close>. The best chain holds it
  too, in the block to be detached: \<open>disconnectTransactions\<close> deletes the entry, and
  \<open>connectTransactions\<close> updates only entries that are there. The returned store has no
  entry for the requested hash.
\<close>

theorem fetchTxList_loses_requested_hash:
  "\<exists>st hp' calls.
     fetchTxList chainR [[True, False], [False]] nodeA3 [0x77] = Inr ((Some st, None), hp', calls) \<and>
     st 0x77 = None \<and> dom st = {} \<and> dom st \<noteq> set [0x77]"
  by (simp add: fetchTxList_def missingTxData_def makeBools_def copyBools_def elems_def
      extendsBestChain_def disconnectTransactions_def connectTransactions_def blockTxSha_def
      updateRequested_def setIndex_def)

section \<open>fetchInputTransactions\<close>

lemma inFlightLoop_enumerate:
  "drop n (Transactions block) = ts \<Longrightarrow>
   \<exists>F. inFlightLoop block m (enumerate n ts) = Inr F \<and>
       (\<forall>h. F h = (case lastTx h ts of None \<Rightarrow> m h | Some u \<Rightarrow> Some u))"
proof (induction ts arbitrary: n m)
  case Nil then show ?case by (simp add: lastTx_def)
next
  case (Cons t ts)
  from drop_eq_ConsD'[OF Cons.prems]
  have n: "n < length (Transactions block)" "Transactions block ! n = t"
    and d: "drop (Suc n) (Transactions block) = ts" by simp_all
  have sha: "blockTxSha block n = Inr (TxSha t)" using n by (simp add: blockTxSha_def)
  from Cons.IH[OF d, of "m(TxSha t \<mapsto> t)"] obtain F where
    F: "inFlightLoop block (m(TxSha t \<mapsto> t)) (enumerate (Suc n) ts) = Inr F"
    and v: "\<forall>h. F h = (case lastTx h ts of None \<Rightarrow> (m(TxSha t \<mapsto> t)) h | Some u \<Rightarrow> Some u)"
    by blast
  have "inFlightLoop block m (enumerate n (t # ts)) = Inr F" using sha F by simp
  moreover have "\<forall>h. F h = (case lastTx h (t # ts) of None \<Rightarrow> m h | Some u \<Rightarrow> Some u)"
    using v by (auto simp: lastTx_Cons split: option.splits)
  ultimately show ?case by blast
qed

lemma inFlightLoop_result:
  "\<exists>F. inFlightLoop block Map.empty (enumerate 0 (Transactions block)) = Inr F \<and>
       (\<forall>h. F h = lastTx h (Transactions block))"
proof -
  from inFlightLoop_enumerate[of 0 block "Transactions block" Map.empty]
  obtain F where "inFlightLoop block Map.empty (enumerate 0 (Transactions block)) = Inr F"
    and "\<forall>h. F h = (case lastTx h (Transactions block) of None \<Rightarrow> None | Some u \<Rightarrow> Some u)"
    by auto
  then show ?thesis by (intro exI[of _ F]) (auto split: option.splits)
qed

lemma collectInputs_inv:
  "collectInputs F node st hp needed ins = (st', hp', needed') \<Longrightarrow>
   inFlightOK F node st hp \<Longrightarrow> (\<forall>h \<in> set needed. F h = None) \<Longrightarrow>
     inFlightOK F node st' hp' \<and> (\<forall>h \<in> set needed'. F h = None) \<and>
     dom st' = dom st \<union> fst ` outpoints ins"
proof (induction ins arbitrary: st hp needed)
  case Nil then show ?case by simp
next
  case (Cons i ins)
  let ?h = "Hash (PreviousOutpoint i)"
  show ?case
  proof (cases "F ?h")
    case None
    let ?st1 = "st(?h \<mapsto> missingTxData ?h)"
    from Cons.prems(1) None
    have r: "collectInputs F node ?st1 hp (needed @ [?h]) ins = (st', hp', needed')"
      by (simp add: Let_def)
    have ok1: "inFlightOK F node ?st1 hp"
      using Cons.prems(2) None unfolding inFlightOK_def by (auto split: if_splits)
    have nd1: "\<forall>h \<in> set (needed @ [?h]). F h = None" using Cons.prems(3) None by simp
    from Cons.IH[OF r ok1 nd1] show ?thesis by auto
  next
    case (Some u)
    let ?d = "(missingTxData ?h)\<lparr>tx := Some u, blockHeight := height node,
                spent := Some (length hp), err := None\<rparr>"
    let ?st1 = "st(?h \<mapsto> ?d)"
    let ?hp1 = "hp @ [replicate (length (TxOut u)) False]"
    from Cons.prems(1) Some
    have r: "collectInputs F node ?st1 ?hp1 needed ins = (st', hp', needed')"
      by (simp add: Let_def makeBools_def)
    have ok1: "inFlightOK F node ?st1 ?hp1"
      unfolding inFlightOK_def
    proof (intro allI impI)
      fix h u' d assume A: "F h = Some u' \<and> ?st1 h = Some d"
      show "\<exists>a. d = \<lparr>tx = Some u', hash = h, blockHeight = height node, spent = Some a, err = None\<rparr> \<and>
             a < length ?hp1 \<and> ?hp1 ! a = replicate (length (TxOut u')) False"
      proof (cases "h = ?h")
        case True
        with A Some have "u' = u" "d = ?d" by auto
        then show ?thesis using True
          by (intro exI[of _ "length hp"]) (simp add: missingTxData_def)
      next
        case False
        with A have "F h = Some u'" "st h = Some d" by auto
        with Cons.prems(2) obtain a where
          "d = \<lparr>tx = Some u', hash = h, blockHeight = height node, spent = Some a, err = None\<rparr>"
          "a < length hp" "hp ! a = replicate (length (TxOut u')) False"
          unfolding inFlightOK_def by blast
        then show ?thesis by (intro exI[of _ a]) (simp add: nth_append)
      qed
    qed
    from Cons.IH[OF r ok1 Cons.prems(3)] show ?thesis by auto
  qed
qed

lemma collectLoop_inv:
  "collectLoop F node st hp needed ts = (st', hp', needed') \<Longrightarrow>
   inFlightOK F node st hp \<Longrightarrow> (\<forall>h \<in> set needed. F h = None) \<Longrightarrow>
     inFlightOK F node st' hp' \<and> (\<forall>h \<in> set needed'. F h = None) \<and>
     dom st' = dom st \<union> fst ` spentBy ts"
proof (induction ts arbitrary: st hp needed)
  case Nil then show ?case by simp
next
  case (Cons t ts)
  obtain st1 hp1 needed1 where
    c: "collectInputs F node st hp needed (TxIn t) = (st1, hp1, needed1)"
    by (cases "collectInputs F node st hp needed (TxIn t)")
  with Cons.prems(1) have r: "collectLoop F node st1 hp1 needed1 ts = (st', hp', needed')"
    by simp
  from collectInputs_inv[OF c Cons.prems(2,3)]
  have k: "inFlightOK F node st1 hp1" "\<forall>h \<in> set needed1. F h = None"
    "dom st1 = dom st \<union> fst ` outpoints (TxIn t)" by auto
  from Cons.IH[OF r k(1,2)] k(3) show ?case by (auto simp: image_Un)
qed

lemma mergeNeeded_other:
  "keyed nst \<Longrightarrow> h \<notin> set ks \<Longrightarrow> mergeNeeded st nst ks h = st h"
proof (induction ks arbitrary: st)
  case Nil then show ?case by simp
next
  case (Cons k ks)
  show ?case
  proof (cases "nst k")
    case None
    with Cons show ?thesis by simp
  next
    case (Some d)
    with Cons.prems(1) have "hash d = k" by (simp add: keyed_def)
    with Cons Some show ?thesis by simp
  qed
qed

text \<open>The successful path through \<open>fetchInputTransactions\<close>, taken apart.\<close>

lemma fetchInputTransactions_success:
  assumes "fetchInputTransactions b hp node block = Inr ((Some v, e), hp', calls)"
  obtains F coinbase ts st hp1 needed nv where
    "inFlightLoop block Map.empty (enumerate 0 (Transactions block)) = Inr F"
    "Transactions block = coinbase # ts"
    "collectLoop F node Map.empty hp [] ts = (st, hp1, needed)"
    "fetchTxList b hp1 node needed = Inr ((nv, None), hp', calls)"
    "v = mergeNeeded st (case nv of None \<Rightarrow> Map.empty | Some s \<Rightarrow> s) needed"
    "e = None"
proof -
  from assms obtain F where F: "inFlightLoop block Map.empty (enumerate 0 (Transactions block)) = Inr F"
    by (auto simp: fetchInputTransactions_def split: sum.splits)
  from assms F obtain coinbase ts where txs: "Transactions block = coinbase # ts"
    by (auto simp: fetchInputTransactions_def split: list.splits)
  obtain st hp1 needed where c: "collectLoop F node Map.empty hp [] ts = (st, hp1, needed)"
    by (cases "collectLoop F node Map.empty hp [] ts")
  from assms F txs c obtain nv where
    "fetchTxList b hp1 node needed = Inr ((nv, None), hp', calls)"
    "v = mergeNeeded st (case nv of None \<Rightarrow> Map.empty | Some s \<Rightarrow> s) needed"
    "e = None"
    by (auto simp: fetchInputTransactions_def split: sum.splits option.splits)
  with F txs c show ?thesis by (rule that)
qed

text \<open>
  Claim C6. Let \<open>fetchInputTransactions\<close> return a store, and let an input of a
  transaction after the coinbase refer to a hash \<open>h\<close> that a transaction of the block has,
  \<open>u\<close> being the last such. The returned entry of \<open>h\<close> then holds \<open>u\<close>, the height of
  the node, no error and a bitmap of one \<open>false\<close> for each output of \<open>u\<close>. The hash is
  not in the list of needed hashes handed to \<open>fetchTxList\<close>, and no call of
  \<open>FetchTxByShaList\<close> names it.
\<close>

theorem in_flight_inputs:
  assumes run: "fetchInputTransactions b hp node block = Inr ((Some v, e), hp', calls)"
    and t: "t \<in> set (tl (Transactions block))"
    and i: "i \<in> set (TxIn t)"
    and u: "lastTx (Hash (PreviousOutpoint i)) (Transactions block) = Some u"
  shows "(\<exists>d. v (Hash (PreviousOutpoint i)) = Some d \<and> tx d = Some u \<and>
              hash d = Hash (PreviousOutpoint i) \<and> blockHeight d = height node \<and> err d = None \<and>
              bitmap hp' d = replicate (length (TxOut u)) False) \<and>
         (\<forall>hs. CallFetchTxByShaList hs \<in> set calls \<longrightarrow> Hash (PreviousOutpoint i) \<notin> set hs) \<and>
         (\<exists>txInFlight txStore hp1 txNeededList.
            inFlightLoop block Map.empty (enumerate 0 (Transactions block)) = Inr txInFlight \<and>
            collectLoop txInFlight node Map.empty hp [] (tl (Transactions block)) =
              (txStore, hp1, txNeededList) \<and>
            Hash (PreviousOutpoint i) \<notin> set txNeededList \<and>
            (\<exists>r. fetchTxList b hp1 node txNeededList = Inr (r, hp', calls)))"
proof -
  let ?h = "Hash (PreviousOutpoint i)"
  from run obtain F coinbase ts st hp1 needed nv where
    F: "inFlightLoop block Map.empty (enumerate 0 (Transactions block)) = Inr F"
    and txs: "Transactions block = coinbase # ts"
    and c: "collectLoop F node Map.empty hp [] ts = (st, hp1, needed)"
    and f: "fetchTxList b hp1 node needed = Inr ((nv, None), hp', calls)"
    and v: "v = mergeNeeded st (case nv of None \<Rightarrow> Map.empty | Some s \<Rightarrow> s) needed"
    by (rule fetchInputTransactions_success)
  from inFlightLoop_result[of block] F have Fh: "\<And>h. F h = lastTx h (Transactions block)"
    by auto
  have Fu: "F ?h = Some u" using Fh u by simp
  have ok0: "inFlightOK F node Map.empty hp" by (simp add: inFlightOK_def)
  from collectLoop_inv[OF c ok0]
  have ok: "inFlightOK F node st hp1" and nd: "\<forall>h \<in> set needed. F h = None"
    and dm: "dom st = fst ` spentBy ts" by auto
  have "(?h, unat (Index (PreviousOutpoint i))) \<in> spentBy ts"
    using t i txs by (auto simp: spentBy_def outpoints_def)
  then have "?h \<in> dom st" unfolding dm by force
  then obtain d where d: "st ?h = Some d" by auto
  from ok Fu d obtain a where
    dd: "d = \<lparr>tx = Some u, hash = ?h, blockHeight = height node, spent = Some a, err = None\<rparr>"
    and a: "a < length hp1" "hp1 ! a = replicate (length (TxOut u)) False"
    unfolding inFlightOK_def by blast
  have notneeded: "?h \<notin> set needed" using nd Fu by auto
  from fetchTxList_keeps[OF f]
  have l: "length hp1 \<le> length hp'" and k: "\<forall>a < length hp1. hp' ! a = hp1 ! a"
    and ky: "\<forall>s. nv = Some s \<longrightarrow> keyed s"
    and cs: "\<forall>hs. CallFetchTxByShaList hs \<in> set calls \<longrightarrow> hs = needed" by auto
  have "keyed (case nv of None \<Rightarrow> Map.empty | Some s \<Rightarrow> s)"
    using ky by (auto simp: keyed_def split: option.splits)
  from mergeNeeded_other[OF this notneeded] v d have vh: "v ?h = Some d" by simp
  have bm: "bitmap hp' d = replicate (length (TxOut u)) False"
    using a l k dd by (simp add: bitmap_Some)
  show ?thesis
  proof (intro conjI allI impI)
    show "\<exists>d. v ?h = Some d \<and> tx d = Some u \<and> hash d = ?h \<and> blockHeight d = height node \<and>
              err d = None \<and> bitmap hp' d = replicate (length (TxOut u)) False"
      using vh bm dd by (intro exI[of _ d]) simp
  next
    fix hs assume "CallFetchTxByShaList hs \<in> set calls"
    with cs notneeded show "?h \<notin> set hs" by auto
  next
    show "\<exists>txInFlight txStore hp1 txNeededList.
            inFlightLoop block Map.empty (enumerate 0 (Transactions block)) = Inr txInFlight \<and>
            collectLoop txInFlight node Map.empty hp [] (tl (Transactions block)) =
              (txStore, hp1, txNeededList) \<and>
            ?h \<notin> set txNeededList \<and>
            (\<exists>r. fetchTxList b hp1 node txNeededList = Inr (r, hp', calls))"
      using F c f notneeded txs by auto
  qed
qed

theorem in_flight_inputs_witness:
  "\<exists>v hp' calls.
     fetchInputTransactions chainR [[True, False], [False]] nodeB3 blockF =
       Inr ((Some v, None), hp', calls) \<and>
     (\<exists>d. v 0x71 = Some d \<and> tx d = Some tx71 \<and> hash d = 0x71 \<and> blockHeight d = 3 \<and>
          err d = None \<and> bitmap hp' d = [False, False]) \<and>
     map_option (bitmap hp') (v 0x58) = Some [True, False] \<and>
     calls = [CallGetPrevNodeFromNode 0xB3, CallFetchTxByShaList [0x58]]"
proof -
  have "\<exists>v hp' calls.
     fetchInputTransactions chainR [[True, False], [False]] nodeB3 blockF =
       Inr ((Some v, None), hp', calls) \<and>
     map_option (bitmap hp') (v 0x58) = Some [True, False] \<and>
     calls = [CallGetPrevNodeFromNode 0xB3, CallFetchTxByShaList [0x58]]"
    by (simp add: fetchInputTransactions_def blockTxSha_def fetchTxList_def missingTxData_def
        makeBools_def copyBools_def elems_def extendsBestChain_def bitmap_def)
  then obtain v hp' calls where
    run: "fetchInputTransactions chainR [[True, False], [False]] nodeB3 blockF =
       Inr ((Some v, None), hp', calls)"
    and rest: "map_option (bitmap hp') (v 0x58) = Some [True, False]"
      "calls = [CallGetPrevNodeFromNode 0xB3, CallFetchTxByShaList [0x58]]"
    by blast
  have t: "tx74 \<in> set (tl (Transactions blockF))" by simp
  have i: "spend 0x71 0 \<in> set (TxIn tx74)" by simp
  have u: "lastTx (Hash (PreviousOutpoint (spend 0x71 0))) (Transactions blockF) = Some tx71"
    by (simp add: lastTx_def)
  from in_flight_inputs[OF run t i u, THEN conjunct1]
  have "\<exists>d. v 0x71 = Some d \<and> tx d = Some tx71 \<and> hash d = 0x71 \<and> blockHeight d = 3 \<and>
          err d = None \<and> bitmap hp' d = [False, False]"
    by (simp add: numeral_2_eq_2)
  with run rest show ?thesis by blast
qed

section \<open>The stores this file builds\<close>

text \<open>
  The order in which the entries of the needed store are merged does not matter: with
  every entry filed under its own hash and every key among the hashes visited, the result
  is the store overridden by the needed store.
\<close>

lemma mergeNeeded_map_add:
  "keyed nst \<Longrightarrow> dom nst \<subseteq> set ks \<Longrightarrow> mergeNeeded st nst ks = st ++ nst"
proof (rule ext)
  fix h
  assume ky: "keyed nst" and dm: "dom nst \<subseteq> set ks"
  have gen: "mergeNeeded st nst ks h =
               (if h \<in> set ks then (case nst h of None \<Rightarrow> st h | Some d \<Rightarrow> Some d) else st h)" for st ks
  proof (induction ks arbitrary: st)
    case Nil then show ?case by simp
  next
    case (Cons k ks)
    show ?case
    proof (cases "nst k")
      case None
      with Cons show ?thesis by (auto split: option.splits)
    next
      case (Some d)
      with ky have "hash d = k" by (simp add: keyed_def)
      with Cons Some show ?thesis by (auto split: option.splits)
    qed
  qed
  show "mergeNeeded st nst ks h = (st ++ nst) h"
    using dm by (auto simp: gen map_add_def split: option.splits)
qed

text \<open>
  Every store that \<open>fetchTxList\<close> returns has its bitmaps in arrays of their own, one for
  each entry: the condition under which the statements about the mutators speak of the
  flags of an entry.
\<close>

lemma ownsBitmap_fresh_entry:
  assumes own: "\<forall>h. ownsBitmap st hp h" and nd: "spent d = Some (length hp)"
  shows "\<forall>h. ownsBitmap (st(k \<mapsto> d)) (hp @ [new]) h"
  unfolding ownsBitmap_def soleOwner_def
proof (intro allI impI)
  fix h e a
  assume A: "(st(k \<mapsto> d)) h = Some e \<and> spent e = Some a"
  have old: "a' < length hp" if "st h' = Some e'" "spent e' = Some a'" for h' e' a'
    using own that unfolding ownsBitmap_def by blast
  have uniq: "h1 = h2" if "st h1 = Some e1" "spent e1 = Some a'" "st h2 = Some e2" "spent e2 = Some a'"
    for h1 h2 e1 e2 a'
    using own that unfolding ownsBitmap_def soleOwner_def by blast
  show "a < length (hp @ [new]) \<and>
        (\<forall>h' d'. (st(k \<mapsto> d)) h' = Some d' \<and> spent d' = Some a \<longrightarrow> h' = h)"
  proof (intro conjI allI impI)
    show "a < length (hp @ [new])"
    proof (cases "h = k")
      case True
      with A nd show ?thesis by simp
    next
      case False
      with A have "st h = Some e" "spent e = Some a" by auto
      then have "a < length hp" by (rule old)
      then show ?thesis by simp
    qed
  next
    fix h' d' assume B: "(st(k \<mapsto> d)) h' = Some d' \<and> spent d' = Some a"
    show "h' = h"
    proof (cases "h = k")
      case True
      with A nd have "a = length hp" by simp
      with B old show ?thesis using True by (cases "h' = k") auto
    next
      case False
      with A have sh: "st h = Some e" "spent e = Some a" by auto
      then have "a < length hp" by (rule old)
      with B nd have "h' \<noteq> k" by auto
      with B have "st h' = Some d'" "spent d' = Some a" by auto
      then show ?thesis using sh uniq by blast
    qed
  qed
qed

lemma ownsBitmap_same_spent:
  assumes own: "\<forall>h. ownsBitmap st hp h" and k: "st k = Some d0" and sp: "spent d = spent d0"
  shows "\<forall>h. ownsBitmap (st(k \<mapsto> d)) hp h"
  using own k sp unfolding ownsBitmap_def soleOwner_def
  by (auto split: if_splits)

lemma ownsBitmap_heap:
  assumes "\<forall>h. ownsBitmap st hp h" and "length hp' = length hp"
  shows "\<forall>h. ownsBitmap st hp' h"
  using assms unfolding ownsBitmap_def by auto

lemma fillReplies_owns:
  "fillReplies st hp rs = (st', hp') \<Longrightarrow> \<forall>h. ownsBitmap st hp h \<Longrightarrow> \<forall>h. ownsBitmap st' hp' h"
proof (induction rs arbitrary: st hp)
  case Nil then show ?case by simp
next
  case (Cons r rs)
  from Cons.prems(1) show ?case
  proof (cases rule: fillReplies_Cons_cases)
    case skip then show ?thesis using Cons.IH Cons.prems(2) by blast
  next
    case (failed d e)
    have "\<forall>h. ownsBitmap (st(Sha r \<mapsto> d\<lparr>err := Some e\<rparr>)) hp h"
      using Cons.prems(2) failed(1) by (rule ownsBitmap_same_spent) simp
    with failed(3) show ?thesis by (rule Cons.IH)
  next
    case (hit d)
    let ?d1 = "d\<lparr>err := None, tx := Tx r, blockHeight := Height r, spent := Some (length hp)\<rparr>"
    let ?new = "replicate (length (elems hp (TxSpent r))) False"
    have "\<forall>h. ownsBitmap (st(Sha r \<mapsto> ?d1)) (hp @ [?new]) h"
      using Cons.prems(2) by (rule ownsBitmap_fresh_entry) simp
    then have "\<forall>h. ownsBitmap (st(Sha r \<mapsto> ?d1))
                 (copyBools (Some (length hp)) (TxSpent r) (hp @ [?new])) h"
      by (rule ownsBitmap_heap) (simp add: copyBools_length)
    with hit(3) show ?thesis by (rule Cons.IH)
  qed
qed

lemma connectTxs_owns:
  "connectTxs hgt st hp ts = Inr (st', hp') \<Longrightarrow> \<forall>h. ownsBitmap st hp h \<Longrightarrow>
     \<forall>h. ownsBitmap st' hp' h"
proof (induction ts arbitrary: st hp)
  case Nil then show ?case by simp
next
  case (Cons t ts)
  from Cons.prems(1) show ?case
  proof (elim connectTxs_ConsE)
    fix st1 hp1 hp2
    assume u: "updateRequested st hp (TxSha t) t hgt = (st1, hp1)"
      and so: "setOrigins True st1 hp1 (TxIn t) = Inr hp2"
      and r: "connectTxs hgt st1 hp2 ts = Inr (st', hp')"
    have "\<forall>h. ownsBitmap st1 hp1 h"
      using updateRequested_cases[OF u]
    proof
      assume "st (TxSha t) = None \<and> st1 = st \<and> hp1 = hp"
      with Cons.prems(2) show ?thesis by simp
    next
      assume "\<exists>d. st (TxSha t) = Some d \<and>
               st1 = st(TxSha t \<mapsto> d\<lparr>tx := Some t, blockHeight := hgt, spent := Some (length hp), err := None\<rparr>) \<and>
               hp1 = hp @ [replicate (length (TxOut t)) False]"
      then obtain d where
        "st1 = st(TxSha t \<mapsto> d\<lparr>tx := Some t, blockHeight := hgt, spent := Some (length hp), err := None\<rparr>)"
        "hp1 = hp @ [replicate (length (TxOut t)) False]" by blast
      then show ?thesis using ownsBitmap_fresh_entry[OF Cons.prems(2)] by simp
    qed
    then have "\<forall>h. ownsBitmap st1 hp2 h"
      by (rule ownsBitmap_heap) (rule setOrigins_length[OF so])
    with r show ?thesis by (rule Cons.IH)
  qed
qed

lemma disconnectTxs_owns:
  assumes "disconnectTxs st hp ts = Inr (st', hp')" and "\<forall>h. ownsBitmap st hp h"
  shows "\<forall>h. ownsBitmap st' hp' h"
  using assms(2) disconnectTxs_heap_length[OF assms(1)]
  unfolding ownsBitmap_def soleOwner_def
  by (auto simp: disconnectTxs_entries[OF assms(1)] split: if_splits)

lemma mutator_owns:
  assumes "connectTransactions st hp block = Inr (e, st', hp') \<or>
           disconnectTransactions st hp block = Inr (e, st', hp')"
    and "\<forall>h. ownsBitmap st hp h"
  shows "\<forall>h. ownsBitmap st' hp' h"
  using assms
  by (auto simp: connectTransactions_Inr disconnectTransactions_Inr
           dest: connectTxs_owns disconnectTxs_owns)

lemma applyAll_owns:
  assumes f: "f = connectTransactions \<or> f = disconnectTransactions"
  shows "applyAll f st hp blocks = Some (st', hp') \<Longrightarrow> \<forall>h. ownsBitmap st hp h \<Longrightarrow>
           \<forall>h. ownsBitmap st' hp' h"
proof (induction blocks arbitrary: st hp)
  case Nil then show ?case by simp
next
  case (Cons blk blks)
  from Cons.prems(1) obtain st1 hp1 where
    c: "f st hp blk = Inr (None, st1, hp1)"
    and rest: "applyAll f st1 hp1 blks = Some (st', hp')"
    by (auto split: sum.splits option.splits)
  have "\<forall>h. ownsBitmap st1 hp1 h"
    using f c mutator_owns[OF _ Cons.prems(2), of blk None st1 hp1] by auto
  with rest show ?case by (rule Cons.IH)
qed

lemma fetchTxList_owns:
  assumes "fetchTxList b hp node txList = Inr ((Some st, e), hp', calls)"
  shows "\<forall>h. ownsBitmap st hp' h"
proof -
  from fetchTxList_returns[OF assms refl]
  have "resolved b hp node txList st hp'" by simp
  then obtain prevNode st0 hp0 where
    f: "fillReplies (initStore Map.empty txList) hp (FetchTxByShaList b txList) = (st0, hp0)"
    and r: "if extendsBestChain b prevNode then st = st0 \<and> hp' = hp0
         else (\<exists>dblocks ablocks st1 hp1.
                 map (\<lambda>n. FetchBlockBySha b (nodeHash n)) (fst (getReorganizeNodes b prevNode)) =
                   map Inr dblocks \<and>
                 map (\<lambda>n. blockCache b (nodeHash n)) (snd (getReorganizeNodes b prevNode)) =
                   map Some ablocks \<and>
                 applyAll disconnectTransactions st0 hp0 dblocks = Some (st1, hp1) \<and>
                 applyAll connectTransactions st1 hp1 ablocks = Some (st, hp'))"
    unfolding resolved_def by blast
  have "\<forall>h. ownsBitmap (initStore Map.empty txList) hp h"
    by (simp add: ownsBitmap_def initStore_entries missingTxData_def)
  with f have o0: "\<forall>h. ownsBitmap st0 hp0 h" by (rule fillReplies_owns)
  show ?thesis
  proof (cases "extendsBestChain b prevNode")
    case True
    with r o0 show ?thesis by simp
  next
    case False
    with r obtain dblocks ablocks st1 hp1 where
      d: "applyAll disconnectTransactions st0 hp0 dblocks = Some (st1, hp1)"
      and a: "applyAll connectTransactions st1 hp1 ablocks = Some (st, hp')" by auto
    have o1: "\<forall>h. ownsBitmap st1 hp1 h" by (rule applyAll_owns[OF disjI2[OF refl] d o0])
    show ?thesis by (rule applyAll_owns[OF disjI1[OF refl] a o1])
  qed
qed

end
